theory Spec2Isabelle
  imports Main "HOL-Library.Sublist"
begin

section \<open>The process: objects, effects and absent collaborators\<close>

text \<open>
  \<^verbatim>\<open>index.js\<close> wires an Express application. What it owns is a module variable
  \<^verbatim>\<open>pool\<close>, eleven controller factories, one schema-initialisation middleware, eleven
  router mounts, two plain routes and the order in which all of these are registered.
  What it calls but does not define (\<^verbatim>\<open>createPool\<close>, the controller classes, the router
  factories, \<^verbatim>\<open>sanitizeInputs\<close>, \<^verbatim>\<open>notFound\<close>, \<^verbatim>\<open>errorHandler\<close>, the database driver) is
  taken as a parameter: a record of functions that say, given everything that has
  happened so far, how the next call of that collaborator ends.

  An object is its identity, a natural number handed out by an allocation counter, so
  that \<^verbatim>\<open>new\<close> returns an object different from every earlier one. An exception is the
  message of the \<^verbatim>\<open>Error\<close> object thrown.
\<close>

datatype resource =
  Auth | User | Organization | Job | JobSeeker | HiringManager | CustomField
  | Lead | Task | Office | Team

type_synonym ref = nat

text \<open>
  The registered middleware, one constructor per \<^verbatim>\<open>app.use\<close>/\<^verbatim>\<open>app.get\<close> argument.
  \<^verbatim>\<open>app.use(path, sanitizeInputs, wrapper)\<close> registers two layers under the same path.
\<close>

datatype layer =
  Helmet | Compression | Cors | BodyJson | BodyUrlencoded | AccessLog | SchemaInit
  | SanitizeInputs resource | RouterMount resource
  | TestDbRoute | RootRoute | NotFound | ErrorHandler

datatype json = JBool bool | JString string

type_synonym body = "(string \<times> json) list"

text \<open>An \<^verbatim>\<open>Error\<close> handed to \<^verbatim>\<open>next(err)\<close>: its \<^verbatim>\<open>status\<close>, when it has one, and its message.\<close>

datatype js_error = Error (status_of: "nat option") (message_of: string)

text \<open>
  How a middleware invocation ends: it calls \<^verbatim>\<open>next()\<close>, it calls \<^verbatim>\<open>next(err)\<close> (or
  throws, which Express turns into \<^verbatim>\<open>next(err)\<close>), or it has sent the response.
\<close>

datatype outcome = Next | NextErr js_error | Ended

text \<open>What an absent middleware does with a request: one of the three, with the response it sends.\<close>

datatype conduct = CallsNext | CallsNextWith js_error | Sends nat body

record controller =
  ctrl_class :: resource
  ctrl_ref :: ref
  ctrl_pool :: ref

datatype event =
  CreatePool ref
  | CreatePoolThrew string
  | NewController resource ref ref
  | NewControllerThrew resource string
  | InitTables resource ref "string option"
  | ConsoleError "string list"
  | CreateRouter resource ref
  | VerifyToken ref
  | Connect "string + ref"
  | Query ref "string + string"
  | Release ref
  | SetHeader string string
  | Respond nat body
  | Enter layer

text \<open>
  What the pipeline reads of a request: the method, \<^verbatim>\<open>req.path\<close> (the pathname of the
  URL), the \<^verbatim>\<open>Origin\<close> header, and of the payload
  \<^item> whether the request announces a body at all (a \<^verbatim>\<open>Content-Length\<close> or
    \<^verbatim>\<open>Transfer-Encoding\<close> header), and whether it is sent in chunks, without a
    \<^verbatim>\<open>Content-Length\<close>;
  \<^item> its content type and the charset given with it: \<^verbatim>\<open>utf-8\<close> (also when none is
    given), another charset of the \<^verbatim>\<open>utf-\<close> family that the decoder knows, a name that
    starts with \<^verbatim>\<open>utf-\<close> that it does not know, or any other;
  \<^item> its content encoding;
  \<^item> its length in bytes as sent, and the number of bytes it inflates to when it is
    compressed;
  \<^item> whether the stream arrives complete and, for JSON, the text parses;
  \<^item> how many parameters a URL-encoded body holds.
\<close>

datatype content_type = NoContentType | ApplicationJson | FormUrlencoded | OtherContentType

datatype charset = Utf8 | UtfOther | UtfUnknown | NotUtf

datatype content_encoding = Identity | Gzip | Deflate | OtherEncoding

record request =
  req_method :: string
  path :: string
  origin :: "string option"
  has_body :: bool
  chunked :: bool
  content_type :: content_type
  charset :: charset
  content_encoding :: content_encoding
  body_len :: nat
  inflated_len :: nat
  body_valid :: bool
  param_count :: nat

text \<open>
  The process: the module variable \<^verbatim>\<open>pool\<close>, unset at load time, the allocation counter,
  and the effects so far, oldest first.
\<close>

record proc =
  pool :: "ref option"
  heap_next :: ref
  trace :: "event list"

definition proc0 :: proc where
  "proc0 = \<lparr>pool = None, heap_next = 0, trace = []\<rparr>"

definition emit :: "event \<Rightarrow> proc \<Rightarrow> proc" where
  "emit e s = s\<lparr>trace := trace s @ [e]\<rparr>"

text \<open>
  The collaborators. \<open>None\<close> (or \<open>Inr\<close>) is a normal return, \<open>Some msg\<close> (or \<open>Inl msg\<close>)
  an \<^verbatim>\<open>Error\<close> with that message, thrown or delivered as a rejected promise.
\<close>

type_synonym environ = "string \<rightharpoonup> string"

record world =
  process_env :: environ
  createPool_throws :: "event list \<Rightarrow> string option"
  constructor_throws :: "resource \<Rightarrow> event list \<Rightarrow> string option"
  initTables_rejects :: "resource \<Rightarrow> event list \<Rightarrow> string option"
  connect_rejects :: "event list \<Rightarrow> string option"
  query_result :: "event list \<Rightarrow> string + string"
  sanitizeInputs_result :: "request \<Rightarrow> event list \<Rightarrow> conduct"
  router_result :: "resource \<Rightarrow> request \<Rightarrow> event list \<Rightarrow> conduct"
  notFound_result :: "request \<Rightarrow> event list \<Rightarrow> conduct"
  errorHandler_result :: "js_error \<Rightarrow> request \<Rightarrow> event list \<Rightarrow> conduct"

section \<open>The connection pool provider\<close>

text \<open>
  \<^verbatim>\<open>createPool()\<close> of \<^verbatim>\<open>./config/database\<close>: either throws, or returns a new pool
  object.
\<close>

definition createPool :: "world \<Rightarrow> proc \<Rightarrow> (string + ref) \<times> proc" where
  "createPool w s =
     (case createPool_throws w (trace s) of
        Some msg \<Rightarrow> (Inl msg, emit (CreatePoolThrew msg) s)
      | None \<Rightarrow>
          (Inr (heap_next s),
           emit (CreatePool (heap_next s)) (s\<lparr>heap_next := Suc (heap_next s)\<rparr>)))"

text \<open>
  \<^verbatim>\<open>
  let pool;
  const getPool = () => {
    if (!pool) { pool = createPool(); }
    return pool;
  };
  \<close>
  A pool object is truthy, so \<^verbatim>\<open>!pool\<close> holds exactly while the variable is
  \<^verbatim>\<open>undefined\<close>. When \<^verbatim>\<open>createPool\<close> throws, the assignment does not happen.
\<close>

definition getPool :: "world \<Rightarrow> proc \<Rightarrow> (string + ref) \<times> proc" where
  "getPool w s =
     (case pool s of
        Some p \<Rightarrow> (Inr p, s)
      | None \<Rightarrow>
          (case createPool w s of
             (Inl msg, s') \<Rightarrow> (Inl msg, s')
           | (Inr p, s') \<Rightarrow> (Inr p, s'\<lparr>pool := Some p\<rparr>)))"

text \<open>Any number of calls in a row; the results are listed in call order.\<close>

fun getPool_calls :: "world \<Rightarrow> nat \<Rightarrow> proc \<Rightarrow> (string + ref) list \<times> proc" where
  "getPool_calls w 0 s = ([], s)"
| "getPool_calls w (Suc n) s =
     (case getPool w s of
        (r, s') \<Rightarrow> (case getPool_calls w n s' of (rs, s'') \<Rightarrow> (r # rs, s'')))"

definition is_CreatePool :: "event \<Rightarrow> bool" where
  "is_CreatePool e = (case e of CreatePool _ \<Rightarrow> True | _ \<Rightarrow> False)"

definition pools_constructed :: "proc \<Rightarrow> nat" where
  "pools_constructed s = length (filter is_CreatePool (trace s))"

text \<open>
  The invariant that ties the module variable to the effects: the variable is set
  exactly when one pool has been constructed, and is unset while none has been.
\<close>

definition pool_inv :: "proc \<Rightarrow> bool" where
  "pool_inv s =
     (case pool s of
        None \<Rightarrow> pools_constructed s = 0
      | Some p \<Rightarrow> pools_constructed s = 1)"

section \<open>Controller factories\<close>

text \<open>
  \<^verbatim>\<open>const getAuthController = () => new AuthController(getPool());\<close> and its ten
  siblings differ in the class only. The argument \<^verbatim>\<open>getPool()\<close> is evaluated first; the
  constructor then runs, and \<^verbatim>\<open>new\<close> allocates an object on every call.
\<close>

definition newController :: "world \<Rightarrow> resource \<Rightarrow> ref \<Rightarrow> proc \<Rightarrow> (string + controller) \<times> proc" where
  "newController w r p s =
     (case constructor_throws w r (trace s) of
        Some msg \<Rightarrow> (Inl msg, emit (NewControllerThrew r msg) s)
      | None \<Rightarrow>
          (Inr \<lparr>ctrl_class = r, ctrl_ref = heap_next s, ctrl_pool = p\<rparr>,
           emit (NewController r (heap_next s) p) (s\<lparr>heap_next := Suc (heap_next s)\<rparr>)))"

definition getController :: "world \<Rightarrow> resource \<Rightarrow> proc \<Rightarrow> (string + controller) \<times> proc" where
  "getController w r s =
     (case getPool w s of
        (Inl msg, s') \<Rightarrow> (Inl msg, s')
      | (Inr p, s') \<Rightarrow> newController w r p s')"

abbreviation "getAuthController w \<equiv> getController w Auth"
abbreviation "getHiringManagerController w \<equiv> getController w HiringManager"
abbreviation "getOrganizationController w \<equiv> getController w Organization"
abbreviation "getJobController w \<equiv> getController w Job"
abbreviation "getUserController w \<equiv> getController w User"
abbreviation "getJobSeekerController w \<equiv> getController w JobSeeker"
abbreviation "getCustomFieldController w \<equiv> getController w CustomField"
abbreviation "getLeadController w \<equiv> getController w Lead"
abbreviation "getTaskController w \<equiv> getController w Task"
abbreviation "getOfficeController w \<equiv> getController w Office"
abbreviation "getTeamController w \<equiv> getController w Team"

section \<open>The schema-initialisation middleware\<close>

text \<open>\<^verbatim>\<open>controller.initTables()\<close>: a promise that resolves, or rejects with an error.\<close>

definition initTables :: "world \<Rightarrow> controller \<Rightarrow> proc \<Rightarrow> string option \<times> proc" where
  "initTables w c s =
     (let r = initTables_rejects w (ctrl_class c) (trace s)
      in (r, emit (InitTables (ctrl_class c) (ctrl_ref c) r) s))"

text \<open>
  One statement of the \<^verbatim>\<open>try\<close> block, \<^verbatim>\<open>await getXController().initTables();\<close>: the
  result is the error that leaves the statement, if one does.
\<close>

definition ensure :: "world \<Rightarrow> resource \<Rightarrow> proc \<Rightarrow> string option \<times> proc" where
  "ensure w r s =
     (case getController w r s of
        (Inl msg, s') \<Rightarrow> (Some msg, s')
      | (Inr c, s') \<Rightarrow> initTables w c s')"

text \<open>The statements of the block run one after the other; the first error leaves the block.\<close>

fun ensure_all :: "world \<Rightarrow> resource list \<Rightarrow> proc \<Rightarrow> string option \<times> proc" where
  "ensure_all w [] s = (None, s)"
| "ensure_all w (r # rs) s =
     (case ensure w r s of
        (Some msg, s') \<Rightarrow> (Some msg, s')
      | (None, s') \<Rightarrow> ensure_all w rs s')"

text \<open>\<^verbatim>\<open>str.startsWith(p)\<close>.\<close>

definition startsWith :: "string \<Rightarrow> string \<Rightarrow> bool" where
  "startsWith str p = (take (length p) str = p)"

text \<open>
  \<^verbatim>\<open>
  const officeController = getOfficeController();
  await officeController.initTables();
  const teamController = getTeamController();
  await teamController.initTables();
  const authController = getAuthController();
  await authController.initTables();
  if (req.path.startsWith("/api/organizations")) {
    await getOrganizationController().initTables();
  }
  if (req.path.startsWith("/api/hiring-managers")) { ... }
  if (req.path.startsWith("/api/jobs")) { ... }
  if (req.path.startsWith("/api/job-seekers")) { ... }
  if (req.path.startsWith("/api/custom-fields")) { ... }
  if (req.path.startsWith("/api/leads")) { ... }
  if (req.path.startsWith("/api/tasks")) { ... }
  \<close>
  The statements the \<^verbatim>\<open>try\<close> block holds for a path: three unconditional ones, then
  one per condition that holds, in the order of the source.
\<close>

definition selected :: "string \<Rightarrow> resource list" where
  "selected p =
     [Office, Team, Auth]
     @ (if startsWith p ''/api/organizations'' then [Organization] else [])
     @ (if startsWith p ''/api/hiring-managers'' then [HiringManager] else [])
     @ (if startsWith p ''/api/jobs'' then [Job] else [])
     @ (if startsWith p ''/api/job-seekers'' then [JobSeeker] else [])
     @ (if startsWith p ''/api/custom-fields'' then [CustomField] else [])
     @ (if startsWith p ''/api/leads'' then [Lead] else [])
     @ (if startsWith p ''/api/tasks'' then [Task] else [])"

text \<open>
  \<^verbatim>\<open>
  app.use(async (req, res, next) => {
    if (req.path.startsWith("/api/")) {
      try { ... } catch (error) {
        console.error("Failed to initialize tables:", error.message);
      }
    }
    next();
  });
  \<close>
\<close>

definition schemaInit :: "world \<Rightarrow> request \<Rightarrow> proc \<Rightarrow> outcome \<times> proc" where
  "schemaInit w req s =
     (if startsWith (path req) ''/api/'' then
        (case ensure_all w (selected (path req)) s of
           (Some msg, s') \<Rightarrow> (Next, emit (ConsoleError [''Failed to initialize tables:'', msg]) s')
         | (None, s') \<Rightarrow> (Next, s'))
      else (Next, s))"

text \<open>The initialisers a trace shows to have run, and how each run of one resource ended.\<close>

fun init_calls :: "event list \<Rightarrow> resource list" where
  "init_calls [] = []"
| "init_calls (InitTables r c res # es) = r # init_calls es"
| "init_calls (e # es) = init_calls es"

fun init_results :: "resource \<Rightarrow> event list \<Rightarrow> string option list" where
  "init_results r [] = []"
| "init_results r (InitTables r' c res # es) =
     (if r' = r then res # init_results r es else init_results r es)"
| "init_results r (e # es) = init_results r es"

section \<open>The database probe and the liveness route\<close>

text \<open>\<^verbatim>\<open>pool.connect()\<close> borrows a client; \<^verbatim>\<open>client.query("SELECT NOW()")\<close> resolves with
  one row, whose \<^verbatim>\<open>now\<close> column is the timestamp, or rejects.\<close>

definition connect :: "world \<Rightarrow> ref \<Rightarrow> proc \<Rightarrow> (string + ref) \<times> proc" where
  "connect w p s =
     (case connect_rejects w (trace s) of
        Some msg \<Rightarrow> (Inl msg, emit (Connect (Inl msg)) s)
      | None \<Rightarrow>
          (Inr (heap_next s),
           emit (Connect (Inr (heap_next s))) (s\<lparr>heap_next := Suc (heap_next s)\<rparr>)))"

definition query :: "world \<Rightarrow> ref \<Rightarrow> proc \<Rightarrow> (string + string) \<times> proc" where
  "query w c s = (let r = query_result w (trace s) in (r, emit (Query c r) s))"

text \<open>The outer \<^verbatim>\<open>catch (err)\<close> of the probe.\<close>

definition databaseError :: "string \<Rightarrow> proc \<Rightarrow> outcome \<times> proc" where
  "databaseError msg s =
     (Ended,
      emit (Respond 500 [(''success'', JBool False), (''error'', JString ''Database error'')])
        (emit (ConsoleError [''Database query error:'', msg]) s))"

text \<open>
  \<^verbatim>\<open>
  app.get("/test-db", async (req, res) => {
    try {
      const pool = getPool();
      const client = await pool.connect();
      try {
        const result = await client.query("SELECT NOW()");
        res.json({ success: true, time: result.rows[0].now });
      } finally {
        client.release();
      }
    } catch (err) {
      console.error("Database query error:", err);
      res.status(500).json({ success: false, error: "Database error" });
    }
  });
  \<close>
  The \<^verbatim>\<open>finally\<close> clause runs before the error reaches the outer \<^verbatim>\<open>catch\<close>.
\<close>

definition testDb :: "world \<Rightarrow> proc \<Rightarrow> outcome \<times> proc" where
  "testDb w s =
     (case getPool w s of
        (Inl msg, s1) \<Rightarrow> databaseError msg s1
      | (Inr p, s1) \<Rightarrow>
          (case connect w p s1 of
             (Inl msg, s2) \<Rightarrow> databaseError msg s2
           | (Inr client, s2) \<Rightarrow>
               (case query w client s2 of
                  (Inl msg, s3) \<Rightarrow> databaseError msg (emit (Release client) s3)
                | (Inr now, s3) \<Rightarrow>
                    (Ended,
                     emit (Release client)
                       (emit (Respond 200 [(''success'', JBool True), (''time'', JString now)])
                          s3)))))"

definition root :: "proc \<Rightarrow> outcome \<times> proc" where
  "root s =
     (Ended,
      emit (Respond 200
              [(''success'', JBool True), (''message'', JString ''Backend is live on Vercel!'')])
        s)"

section \<open>Configuration read at load time\<close>

text \<open>A value of \<^verbatim>\<open>process.env\<close> is falsy when the variable is unset or the empty string.\<close>

definition truthy :: "string option \<Rightarrow> bool" where
  "truthy v = (case v of None \<Rightarrow> False | Some x \<Rightarrow> x \<noteq> [])"

definition production :: "environ \<Rightarrow> bool" where
  "production env = (env ''NODE_ENV'' = Some ''production'')"

definition requiredEnvVars :: "string list" where
  "requiredEnvVars = [''JWT_SECRET'', ''DB_HOST'', ''DB_USER'', ''DB_PASSWORD'', ''DB_DATABASE'']"

definition missingEnvVars :: "environ \<Rightarrow> string list" where
  "missingEnvVars env = filter (\<lambda>envVar. \<not> truthy (env envVar)) requiredEnvVars"

text \<open>\<^verbatim>\<open>xs.join(sep)\<close> and \<^verbatim>\<open>str.split(",")\<close>.\<close>

fun join :: "string \<Rightarrow> string list \<Rightarrow> string" where
  "join sep [] = []"
| "join sep [x] = x"
| "join sep (x # y # ys) = x @ sep @ join sep (y # ys)"

fun split_comma :: "string \<Rightarrow> string list" where
  "split_comma [] = [[]]"
| "split_comma (c # cs) =
     (if c = CHR '','' then [] # split_comma cs
      else (case split_comma cs of
              [] \<Rightarrow> [[c]]
            | x # xs \<Rightarrow> (c # x) # xs))"

text \<open>
  The check of lines 10 to 19: three \<^verbatim>\<open>console.error\<close> calls when a required variable
  is missing in production, nothing otherwise. No branch throws or exits. The first
  message starts with a cross mark, U+274C, three bytes in UTF-8.
\<close>

definition envCheck :: "environ \<Rightarrow> event list" where
  "envCheck env =
     (if production env then
        (if length (missingEnvVars env) > 0 then
           [ConsoleError
              [[CHR 0xE2, CHR 0x9D, CHR 0x8C] @ '' Missing required environment variables:'',
               join '', '' (missingEnvVars env)],
            ConsoleError
              [''Please ensure all required environment variables are set in your Vercel deployment.''],
            ConsoleError
              [''Continuing with deployment but some features may not work properly.'']]
         else [])
      else [])"

subsection \<open>The CORS options\<close>

text \<open>\<^verbatim>\<open>origin\<close> is an array of strings in production and \<^verbatim>\<open>true\<close> otherwise.\<close>

datatype origin_option = OriginList "string list" | OriginTrue

record cors_options =
  cors_origin :: origin_option
  cors_methods :: "string list"
  cors_allowedHeaders :: "string list"
  cors_credentials :: bool

definition allowedOrigins :: "string list" where
  "allowedOrigins =
     [''http://localhost:3000'',
      ''https://ats-orcin.vercel.app'',
      ''https://ats-software-frontend.vercel.app'',
      ''https://cms-organization.vercel.app'']"

definition additionalOrigins :: "environ \<Rightarrow> string list" where
  "additionalOrigins env =
     (case env ''ALLOWED_ORIGINS'' of
        None \<Rightarrow> []
      | Some v \<Rightarrow> if v \<noteq> [] then split_comma v else [])"

definition allOrigins :: "environ \<Rightarrow> string list" where
  "allOrigins env = allowedOrigins @ additionalOrigins env"

text \<open>
  The options handed to \<^verbatim>\<open>cors(...)\<close>. The factory only stores them, so the \<^verbatim>\<open>catch\<close>
  around the registration, with its default \<^verbatim>\<open>cors()\<close>, is never entered.
\<close>

definition corsOptions :: "environ \<Rightarrow> cors_options" where
  "corsOptions env =
     \<lparr>cors_origin = (if production env then OriginList (allOrigins env) else OriginTrue),
      cors_methods = [''GET'', ''POST'', ''PUT'', ''DELETE'', ''OPTIONS''],
      cors_allowedHeaders = [''Content-Type'', ''Authorization'', ''X-Requested-With''],
      cors_credentials = True\<rparr>"

section \<open>The third-party middleware\<close>

text \<open>
  The \<^verbatim>\<open>cors\<close> package. An origin is allowed by an array when it equals one of its
  strings, and by \<^verbatim>\<open>true\<close> always; a request without an \<^verbatim>\<open>Origin\<close> header equals no string.
\<close>

definition isOriginAllowed :: "string option \<Rightarrow> origin_option \<Rightarrow> bool" where
  "isOriginAllowed requestOrigin allowed =
     (case allowed of
        OriginList xs \<Rightarrow> (case requestOrigin of None \<Rightarrow> False | Some x \<Rightarrow> x \<in> set xs)
      | OriginTrue \<Rightarrow> True)"

text \<open>A header is written only when its value is truthy.\<close>

definition configureOrigin :: "cors_options \<Rightarrow> request \<Rightarrow> event list" where
  "configureOrigin opts req =
     (case origin req of
        None \<Rightarrow> []
      | Some x \<Rightarrow>
          if isOriginAllowed (Some x) (cors_origin opts) \<and> x \<noteq> []
          then [SetHeader ''Access-Control-Allow-Origin'' x] else [])
     @ [SetHeader ''Vary'' ''Origin'']"

definition configureCredentials :: "cors_options \<Rightarrow> event list" where
  "configureCredentials opts =
     (if cors_credentials opts then [SetHeader ''Access-Control-Allow-Credentials'' ''true'']
      else [])"

definition configureMethods :: "cors_options \<Rightarrow> event list" where
  "configureMethods opts =
     [SetHeader ''Access-Control-Allow-Methods'' (join '','' (cors_methods opts))]"

definition configureAllowedHeaders :: "cors_options \<Rightarrow> event list" where
  "configureAllowedHeaders opts =
     [SetHeader ''Access-Control-Allow-Headers'' (join '','' (cors_allowedHeaders opts))]"

definition emits :: "event list \<Rightarrow> proc \<Rightarrow> proc" where
  "emits es s = s\<lparr>trace := trace s @ es\<rparr>"

text \<open>
  Every \<^verbatim>\<open>OPTIONS\<close> request is answered as a preflight, with status 204, and goes no
  further; any other request gets the origin and credentials headers and goes on.
\<close>

definition cors :: "cors_options \<Rightarrow> request \<Rightarrow> proc \<Rightarrow> outcome \<times> proc" where
  "cors opts req s =
     (if req_method req = ''OPTIONS'' then
        (Ended,
         emit (Respond 204 [])
           (emits (configureOrigin opts req @ configureCredentials opts
                   @ configureMethods opts @ configureAllowedHeaders opts) s))
      else (Next, emits (configureOrigin opts req @ configureCredentials opts) s))"

text \<open>
  The \<^verbatim>\<open>body-parser\<close> package, \<^verbatim>\<open>json({ limit: "1mb" })\<close> and
  \<^verbatim>\<open>urlencoded({ extended: false, limit: "1mb" })\<close>; the parameter limit of the second
  is the default, 1000.
\<close>

definition limit :: nat where
  "limit = 1024 * 1024"

definition parameterLimit :: nat where
  "parameterLimit = 1000"

text \<open>
  The bytes a parser reads are the payload itself or, for a compressed payload, what it
  inflates to. The length is known in advance only for a payload sent as it is, with a
  \<^verbatim>\<open>Content-Length\<close>.
\<close>

definition stream_len :: "request \<Rightarrow> nat" where
  "stream_len req =
     (case content_encoding req of
        Identity \<Rightarrow> body_len req
      | Gzip \<Rightarrow> inflated_len req
      | Deflate \<Rightarrow> inflated_len req
      | OtherEncoding \<Rightarrow> body_len req)"

definition announced_len :: "request \<Rightarrow> nat option" where
  "announced_len req =
     (if content_encoding req = Identity \<and> \<not> chunked req then Some (body_len req) else None)"

definition tooLarge :: js_error where
  "tooLarge = Error (Some 413) ''request entity too large''"

text \<open>
  Reading the body, the same for both parsers, in the order of the package: an unknown
  content encoding fails with 415; a length announced beyond the limit fails with 413
  before anything is read; a charset without a decoder fails with 415; the stream fails
  with 413 as soon as more than the limit has been read, and with 400 when it breaks off
  or does not parse.
\<close>

definition readBody :: "bool \<Rightarrow> request \<Rightarrow> js_error option" where
  "readBody decoder_exists req =
     (if content_encoding req = OtherEncoding then
        Some (Error (Some 415) ''unsupported content encoding'')
      else if (case announced_len req of None \<Rightarrow> False | Some n \<Rightarrow> n > limit) then
        Some tooLarge
      else if \<not> decoder_exists then Some (Error (Some 415) ''specified encoding unsupported'')
      else if stream_len req > limit then Some tooLarge
      else if \<not> body_valid req then Some (Error (Some 400) ''bad request'')
      else None)"

text \<open>
  A parser looks only at a request that announces a body of its own content type. The
  JSON parser takes any charset of the \<^verbatim>\<open>utf-\<close> family, the other one \<^verbatim>\<open>utf-8\<close> only; a
  charset refused here fails with 415 before the body is read. The URL-encoded parser
  fails with 413 on a body of more parameters than the parameter limit. A body that one
  parser has read is skipped by the next; as the content types differ, so it is here.
\<close>

definition jsonParser :: "request \<Rightarrow> proc \<Rightarrow> outcome \<times> proc" where
  "jsonParser req s =
     (if \<not> has_body req then (Next, s)
      else if content_type req \<noteq> ApplicationJson then (Next, s)
      else if charset req = NotUtf then (NextErr (Error (Some 415) ''unsupported charset''), s)
      else
        (case readBody (charset req \<noteq> UtfUnknown) req of
           Some e \<Rightarrow> (NextErr e, s)
         | None \<Rightarrow> (Next, s)))"

definition urlencodedParser :: "request \<Rightarrow> proc \<Rightarrow> outcome \<times> proc" where
  "urlencodedParser req s =
     (if \<not> has_body req then (Next, s)
      else if content_type req \<noteq> FormUrlencoded then (Next, s)
      else if charset req \<noteq> Utf8 then (NextErr (Error (Some 415) ''unsupported charset''), s)
      else
        (case readBody True req of
           Some e \<Rightarrow> (NextErr e, s)
         | None \<Rightarrow>
             if stream_len req > 0 \<and> param_count req > parameterLimit
             then (NextErr (Error (Some 413) ''too many parameters''), s)
             else (Next, s)))"

section \<open>The router mounts\<close>

definition prefix_of :: "resource \<Rightarrow> string" where
  "prefix_of r =
     (case r of
        Auth \<Rightarrow> ''/api/auth''
      | User \<Rightarrow> ''/api/users''
      | Organization \<Rightarrow> ''/api/organizations''
      | Job \<Rightarrow> ''/api/jobs''
      | JobSeeker \<Rightarrow> ''/api/job-seekers''
      | HiringManager \<Rightarrow> ''/api/hiring-managers''
      | CustomField \<Rightarrow> ''/api/custom-fields''
      | Lead \<Rightarrow> ''/api/leads''
      | Task \<Rightarrow> ''/api/tasks''
      | Office \<Rightarrow> ''/api/offices''
      | Team \<Rightarrow> ''/api/teams'')"

text \<open>What an absent middleware did becomes an outcome; a response sent is recorded.\<close>

definition act :: "conduct \<Rightarrow> proc \<Rightarrow> outcome \<times> proc" where
  "act c s =
     (case c of
        CallsNext \<Rightarrow> (Next, s)
      | CallsNextWith e \<Rightarrow> (NextErr e, s)
      | Sends st b \<Rightarrow> (Ended, emit (Respond st b) s))"

text \<open>
  \<^verbatim>\<open>
  app.use("/api/auth", sanitizeInputs, (req, res, next) => {
    createAuthRouter(getAuthController())(req, res, next);
  });
  app.use("/api/users", sanitizeInputs, (req, res, next) => {
    createUserRouter(getUserController(),
      { verifyToken: verifyToken(getPool()), checkRole })(req, res, next);
  });
  \<close>
  and nine more of the second shape. The arguments are evaluated left to right; an
  exception thrown while they are leaves the wrapper and Express passes it on as
  \<^verbatim>\<open>next(err)\<close>. The router then handles the request.
\<close>

definition routerMount :: "world \<Rightarrow> resource \<Rightarrow> request \<Rightarrow> proc \<Rightarrow> outcome \<times> proc" where
  "routerMount w r req s =
     (case getController w r s of
        (Inl msg, s1) \<Rightarrow> (NextErr (Error None msg), s1)
      | (Inr c, s1) \<Rightarrow>
          (if r = Auth then
             (let s3 = emit (CreateRouter r (ctrl_ref c)) s1
              in act (router_result w r req (trace s3)) s3)
           else
             (case getPool w s1 of
                (Inl msg, s2) \<Rightarrow> (NextErr (Error None msg), s2)
              | (Inr p, s2) \<Rightarrow>
                  (let s3 = emit (CreateRouter r (ctrl_ref c)) (emit (VerifyToken p) s2)
                   in act (router_result w r req (trace s3)) s3))))"

section \<open>The application: registration order and dispatch\<close>

definition mounts :: "resource list" where
  "mounts =
     [Auth, User, Organization, Job, JobSeeker, HiringManager, CustomField, Lead, Task,
      Office, Team]"

text \<open>The layers in the order of the \<^verbatim>\<open>app.use\<close> and \<^verbatim>\<open>app.get\<close> calls, lines 56 to 224.\<close>

definition app_stack :: "layer list" where
  "app_stack =
     [Helmet, Compression, Cors, BodyJson, BodyUrlencoded, AccessLog, SchemaInit]
     @ concat (map (\<lambda>r. [SanitizeInputs r, RouterMount r]) mounts)
     @ [TestDbRoute, RootRoute, NotFound, ErrorHandler]"

text \<open>
  Express matches paths without regard to case. A layer mounted on a prefix matches a
  path that continues with a slash or ends there; a route matches its path, with or
  without a trailing slash.
\<close>

definition lower :: "char \<Rightarrow> char" where
  "lower c =
     (case map_of (zip ''ABCDEFGHIJKLMNOPQRSTUVWXYZ'' ''abcdefghijklmnopqrstuvwxyz'') c of
        None \<Rightarrow> c
      | Some d \<Rightarrow> d)"

definition mountMatch :: "string \<Rightarrow> string \<Rightarrow> bool" where
  "mountMatch pre p =
     (startsWith (map lower p) pre
      \<and> (case drop (length pre) p of [] \<Rightarrow> True | c # cs \<Rightarrow> c = CHR ''/''))"

definition routeMatch :: "string \<Rightarrow> string \<Rightarrow> bool" where
  "routeMatch route p = (map lower p = route \<or> map lower p = route @ ''/'')"

text \<open>A \<^verbatim>\<open>get\<close> route also serves \<^verbatim>\<open>HEAD\<close>.\<close>

definition getMethod :: "request \<Rightarrow> bool" where
  "getMethod req = (req_method req = ''GET'' \<or> req_method req = ''HEAD'')"

fun layer_matches :: "layer \<Rightarrow> request \<Rightarrow> bool" where
  "layer_matches (SanitizeInputs r) req = mountMatch (prefix_of r) (path req)"
| "layer_matches (RouterMount r) req = mountMatch (prefix_of r) (path req)"
| "layer_matches TestDbRoute req = (routeMatch ''/test-db'' (path req) \<and> getMethod req)"
| "layer_matches RootRoute req = ((path req = ''/'' \<or> path req = []) \<and> getMethod req)"
| "layer_matches l req = True"

text \<open>
  Modelled from the spec: \<^verbatim>\<open>errorHandler\<close> of \<^verbatim>\<open>./middleware/errorMiddleware\<close> is the
  error-handling middleware, for Express a function of four arguments, while
  \<^verbatim>\<open>sanitizeInputs\<close> and \<^verbatim>\<open>notFound\<close> are ordinary middleware. Express calls an
  error-handling layer only with an error pending, and every other layer only with none.
\<close>

definition is_error_handler :: "layer \<Rightarrow> bool" where
  "is_error_handler l = (l = ErrorHandler)"

text \<open>
  What each layer does when entered. \<^verbatim>\<open>helmet\<close> and \<^verbatim>\<open>compression\<close> touch only the
  response headers and the response stream; the access logger registers a listener
  that writes its line, with a duration read from the clock, once the response is
  finished. All three call \<^verbatim>\<open>next()\<close>, and nothing of them is traced.
\<close>

fun run_layer :: "world \<Rightarrow> layer \<Rightarrow> request \<Rightarrow> proc \<Rightarrow> outcome \<times> proc" where
  "run_layer w Helmet req s = (Next, s)"
| "run_layer w Compression req s = (Next, s)"
| "run_layer w Cors req s = cors (corsOptions (process_env w)) req s"
| "run_layer w BodyJson req s = jsonParser req s"
| "run_layer w BodyUrlencoded req s = urlencodedParser req s"
| "run_layer w AccessLog req s = (Next, s)"
| "run_layer w SchemaInit req s = schemaInit w req s"
| "run_layer w (SanitizeInputs r) req s = act (sanitizeInputs_result w req (trace s)) s"
| "run_layer w (RouterMount r) req s = routerMount w r req s"
| "run_layer w TestDbRoute req s = testDb w s"
| "run_layer w RootRoute req s = root s"
| "run_layer w NotFound req s = act (notFound_result w req (trace s)) s"
| "run_layer w ErrorHandler req s = (Next, s)"

definition run_error_layer :: "world \<Rightarrow> js_error \<Rightarrow> request \<Rightarrow> proc \<Rightarrow> outcome \<times> proc" where
  "run_error_layer w e req s = act (errorHandler_result w e req (trace s)) s"

text \<open>
  When the stack is exhausted Express answers itself: 404 with no error pending,
  otherwise the error's status when it is an error status, and 500 if not.
\<close>

definition finalhandler :: "js_error option \<Rightarrow> proc \<Rightarrow> proc" where
  "finalhandler pending s =
     (case pending of
        None \<Rightarrow> emit (Respond 404 []) s
      | Some e \<Rightarrow>
          (case status_of e of
             Some st \<Rightarrow> emit (Respond (if 400 \<le> st \<and> st < 600 then st else 500) []) s
           | None \<Rightarrow> emit (Respond 500 []) s))"

text \<open>
  One request through the stack. A layer that does not match is skipped; a matching
  one is entered when its kind fits the pending error; \<^verbatim>\<open>next()\<close> and \<^verbatim>\<open>next(err)\<close> move
  on to the layers registered after it.
\<close>

fun dispatch :: "world \<Rightarrow> layer list \<Rightarrow> js_error option \<Rightarrow> request \<Rightarrow> proc \<Rightarrow> proc" where
  "dispatch w [] pending req s = finalhandler pending s"
| "dispatch w (l # ls) pending req s =
     (if \<not> layer_matches l req then dispatch w ls pending req s
      else
        (case pending of
           None \<Rightarrow>
             (if is_error_handler l then dispatch w ls None req s
              else
                (case run_layer w l req (emit (Enter l) s) of
                   (Next, s') \<Rightarrow> dispatch w ls None req s'
                 | (NextErr e, s') \<Rightarrow> dispatch w ls (Some e) req s'
                 | (Ended, s') \<Rightarrow> s'))
         | Some e \<Rightarrow>
             (if is_error_handler l then
                (case run_error_layer w e req (emit (Enter l) s) of
                   (Next, s') \<Rightarrow> dispatch w ls None req s'
                 | (NextErr e', s') \<Rightarrow> dispatch w ls (Some e') req s'
                 | (Ended, s') \<Rightarrow> s')
              else dispatch w ls (Some e) req s)))"

definition handle_request :: "world \<Rightarrow> request \<Rightarrow> proc \<Rightarrow> proc" where
  "handle_request w req s = dispatch w app_stack None req s"

text \<open>The layers a trace shows to have been entered, in order.\<close>

fun entered :: "event list \<Rightarrow> layer list" where
  "entered [] = []"
| "entered (Enter l # es) = l # entered es"
| "entered (e # es) = entered es"

text \<open>The stages of the pipeline, and their rank in the documented control flow.\<close>

datatype stage =
  Headers | CorsPolicy | BodyParsing | AccessLogging | SchemaInitialization
  | Sanitization | Handler | ErrorNormalizer

fun stage_of :: "layer \<Rightarrow> stage" where
  "stage_of Helmet = Headers"
| "stage_of Compression = Headers"
| "stage_of Cors = CorsPolicy"
| "stage_of BodyJson = BodyParsing"
| "stage_of BodyUrlencoded = BodyParsing"
| "stage_of AccessLog = AccessLogging"
| "stage_of SchemaInit = SchemaInitialization"
| "stage_of (SanitizeInputs r) = Sanitization"
| "stage_of (RouterMount r) = Handler"
| "stage_of TestDbRoute = Handler"
| "stage_of RootRoute = Handler"
| "stage_of NotFound = ErrorNormalizer"
| "stage_of ErrorHandler = ErrorNormalizer"

fun rank :: "stage \<Rightarrow> nat" where
  "rank Headers = 0"
| "rank CorsPolicy = 1"
| "rank BodyParsing = 2"
| "rank AccessLogging = 3"
| "rank SchemaInitialization = 4"
| "rank Sanitization = 5"
| "rank Handler = 6"
| "rank ErrorNormalizer = 7"

section \<open>Loading the module\<close>

text \<open>
  What evaluating \<^verbatim>\<open>index.js\<close> from top to bottom leaves behind: the lines written to
  the console by the configuration check, the application with its layers and CORS
  options, which is the value of \<^verbatim>\<open>module.exports\<close>, and the port it listens on, if it
  does (\<^verbatim>\<open>process.env.PORT || 8080\<close>, outside production only).
\<close>

record app =
  console :: "event list"
  layers :: "layer list"
  cors_config :: cors_options
  listening :: "string option"

definition port :: "environ \<Rightarrow> string" where
  "port env = (case env ''PORT'' of None \<Rightarrow> ''8080'' | Some v \<Rightarrow> if v \<noteq> [] then v else ''8080'')"

definition load_module :: "environ \<Rightarrow> app" where
  "load_module env =
     \<lparr>console = envCheck env,
      layers = app_stack,
      cors_config = corsOptions env,
      listening = (if \<not> production env then Some (port env) else None)\<rparr>"

section \<open>Sample collaborators and requests\<close>

text \<open>
  A world in which nothing fails: the routers answer 200, \<^verbatim>\<open>notFound\<close> raises a 404
  error and \<^verbatim>\<open>errorHandler\<close> answers with the error's status.
\<close>

definition calm :: world where
  "calm =
     \<lparr>process_env = Map.empty,
      createPool_throws = (\<lambda>_. None),
      constructor_throws = (\<lambda>_ _. None),
      initTables_rejects = (\<lambda>_ _. None),
      connect_rejects = (\<lambda>_. None),
      query_result = (\<lambda>_. Inr ''2026-01-01T00:00:00Z''),
      sanitizeInputs_result = (\<lambda>_ _. CallsNext),
      router_result = (\<lambda>_ _ _. Sends 200 []),
      notFound_result = (\<lambda>_ _. CallsNextWith (Error (Some 404) ''Not Found'')),
      errorHandler_result =
        (\<lambda>e _ _. Sends (case status_of e of Some st \<Rightarrow> st | None \<Rightarrow> 500) [])\<rparr>"

text \<open>The same world, except that the office controller's \<^verbatim>\<open>initTables\<close> rejects.\<close>

definition office_down :: world where
  "office_down =
     calm\<lparr>initTables_rejects :=
            (\<lambda>r _. if r = Office then Some ''relation offices: permission denied'' else None)\<rparr>"

text \<open>The same world, except that the database answers no query.\<close>

definition db_down :: world where
  "db_down = calm\<lparr>query_result := (\<lambda>_. Inl ''connection terminated'')\<rparr>"

definition get :: "string \<Rightarrow> request" where
  "get p =
     \<lparr>req_method = ''GET'', path = p, origin = None, has_body = False, chunked = False,
      content_type = NoContentType, charset = Utf8, content_encoding = Identity,
      body_len = 0, inflated_len = 0, body_valid = True, param_count = 0\<rparr>"

text \<open>A payload of \<open>n\<close> bytes sent as it is, and one of \<open>n\<close> bytes that inflates to \<open>m\<close>.\<close>

definition post :: "string \<Rightarrow> content_type \<Rightarrow> nat \<Rightarrow> request" where
  "post p ty n =
     \<lparr>req_method = ''POST'', path = p, origin = None, has_body = True, chunked = False,
      content_type = ty, charset = Utf8, content_encoding = Identity,
      body_len = n, inflated_len = n, body_valid = True, param_count = 0\<rparr>"

definition post_gzip :: "string \<Rightarrow> content_type \<Rightarrow> nat \<Rightarrow> nat \<Rightarrow> request" where
  "post_gzip p ty n m = (post p ty n)\<lparr>content_encoding := Gzip, inflated_len := m\<rparr>"

text \<open>The events a computation added to the trace.\<close>

definition since :: "proc \<Rightarrow> proc \<Rightarrow> event list" where
  "since s s' = drop (length (trace s)) (trace s')"

text \<open>
  Requests served by the same process, each handled to its end before the next begins.
  How requests in flight at the same time interleave at their suspension points is not
  modelled.
\<close>

fun serve :: "world \<Rightarrow> request list \<Rightarrow> proc \<Rightarrow> proc" where
  "serve w [] s = s"
| "serve w (req # reqs) s = serve w reqs (handle_request w req s)"

text \<open>
  A resource counts as confirmed once a run of its initialiser has succeeded. The
  process keeps no such flag; this reads it off the history.
\<close>

definition confirmed :: "resource \<Rightarrow> event list \<Rightarrow> bool" where
  "confirmed r tr = (None \<in> set (init_results r tr))"

text \<open>The controller instances handed to the router factory of a resource, in order.\<close>

fun controllers_used :: "resource \<Rightarrow> event list \<Rightarrow> ref list" where
  "controllers_used r [] = []"
| "controllers_used r (CreateRouter r' c # es) =
     (if r' = r then c # controllers_used r es else controllers_used r es)"
| "controllers_used r (e # es) = controllers_used r es"

text \<open>The pools constructed, and the pools that controllers were bound to at construction.\<close>

fun pools_created :: "event list \<Rightarrow> ref list" where
  "pools_created [] = []"
| "pools_created (CreatePool p # es) = p # pools_created es"
| "pools_created (e # es) = pools_created es"

fun pools_bound :: "event list \<Rightarrow> ref list" where
  "pools_bound [] = []"
| "pools_bound (NewController r c p # es) = p # pools_bound es"
| "pools_bound (e # es) = pools_bound es"

text \<open>The responses sent, the connections borrowed and the connections released.\<close>

fun responses :: "event list \<Rightarrow> (nat \<times> body) list" where
  "responses [] = []"
| "responses (Respond st b # es) = (st, b) # responses es"
| "responses (e # es) = responses es"

fun borrowed :: "event list \<Rightarrow> ref list" where
  "borrowed [] = []"
| "borrowed (Connect (Inr c) # es) = c # borrowed es"
| "borrowed (e # es) = borrowed es"

fun released :: "event list \<Rightarrow> ref list" where
  "released [] = []"
| "released (Release c # es) = c # released es"
| "released (e # es) = released es"

fun query_results :: "event list \<Rightarrow> (string + string) list" where
  "query_results [] = []"
| "query_results (Query c r # es) = r # query_results es"
| "query_results (e # es) = query_results es"

text \<open>
  A production environment that names two further origins and sets the database host,
  but none of the other required variables.
\<close>

definition prod_env :: environ where
  "prod_env =
     [''NODE_ENV'' \<mapsto> ''production'',
      ''ALLOWED_ORIGINS'' \<mapsto> ''https://a.example,https://b.example'',
      ''DB_HOST'' \<mapsto> ''db.internal'']"

definition options :: "string \<Rightarrow> string \<Rightarrow> request" where
  "options p x =
     \<lparr>req_method = ''OPTIONS'', path = p, origin = Some x, has_body = False, chunked = False,
      content_type = NoContentType, charset = Utf8, content_encoding = Identity,
      body_len = 0, inflated_len = 0, body_valid = True, param_count = 0\<rparr>"

text \<open>
  The discipline every part of the pipeline keeps when it takes the process from \<open>s\<close> to
  \<open>s'\<close> adding the events \<open>es\<close>: the trace only grows, objects are only allocated, the
  module variable \<^verbatim>\<open>pool\<close> is never reset, a pool is constructed exactly when the
  variable becomes set, every controller constructed is bound to the
  pool the variable holds, and every controller handed to a router factory was allocated
  in between, no two of them the same.
\<close>

definition grows :: "proc \<Rightarrow> event list \<Rightarrow> proc \<Rightarrow> bool" where
  "grows s es s' =
     (trace s' = trace s @ es
      \<and> heap_next s \<le> heap_next s'
      \<and> (\<forall>p. pool s = Some p \<longrightarrow> pool s' = Some p)
      \<and> length (pools_created es) + (if pool s = None then 0 else 1)
          = (if pool s' = None then 0 else 1)
      \<and> (\<forall>p \<in> set (pools_bound es). pool s' = Some p)
      \<and> (\<forall>r. distinct (controllers_used r es)
             \<and> (\<forall>c \<in> set (controllers_used r es). heap_next s \<le> c \<and> c < heap_next s')))"

text \<open>The layers registered after the body parsers and before \<^verbatim>\<open>errorHandler\<close>.\<close>

definition tail_stack :: "layer list" where
  "tail_stack =
     [AccessLog, SchemaInit]
     @ concat (map (\<lambda>r. [SanitizeInputs r, RouterMount r]) mounts)
     @ [TestDbRoute, RootRoute, NotFound]"

text \<open>The statements of the block that come before the one of a resource.\<close>

definition before :: "resource \<Rightarrow> resource list \<Rightarrow> resource list" where
  "before q rs = takeWhile (\<lambda>r. r \<noteq> q) rs"

text \<open>
  Whether the controller of a resource can be constructed in a state: neither
  \<^verbatim>\<open>createPool\<close>, when the pool is still to be created, nor the constructor throws.
\<close>

definition constructs :: "world \<Rightarrow> resource \<Rightarrow> proc \<Rightarrow> bool" where
  "constructs w q s = (case fst (getController w q s) of Inl m \<Rightarrow> False | Inr c \<Rightarrow> True)"

text \<open>
  The messages of the errors a trace shows: a pool or a controller that could not be
  constructed, an initialiser that rejected.
\<close>

fun failures :: "event list \<Rightarrow> string list" where
  "failures [] = []"
| "failures (CreatePoolThrew m # es) = m # failures es"
| "failures (NewControllerThrew r m # es) = m # failures es"
| "failures (InitTables r c (Some m) # es) = m # failures es"
| "failures (e # es) = failures es"

text \<open>A world in which the team controller's \<^verbatim>\<open>initTables\<close> rejects, the others resolve.\<close>

definition team_down :: world where
  "team_down =
     calm\<lparr>initTables_rejects :=
            (\<lambda>r _. if r = Team then Some ''relation teams: permission denied'' else None)\<rparr>"

text \<open>
  A step from \<open>s\<close> to \<open>s'\<close> that only adds events, none of which enters a layer or hands
  a controller to a router factory.
\<close>

definition silent :: "proc \<Rightarrow> proc \<Rightarrow> bool" where
  "silent s s' =
     (\<exists>es. trace s' = trace s @ es \<and> entered es = [] \<and> (\<forall>q. controllers_used q es = []))"

text \<open>How often the router of a resource was dispatched to, by a trace.\<close>

definition dispatches :: "resource \<Rightarrow> event list \<Rightarrow> nat" where
  "dispatches r tr = length (filter (\<lambda>l. l = RouterMount r) (entered tr))"

text \<open>A world like \<open>calm\<close>, except that no pool can be constructed.\<close>

definition pool_down :: world where
  "pool_down = calm\<lparr>createPool_throws := (\<lambda>_. Some ''ECONNREFUSED'')\<rparr>"

section \<open>The pool is constructed once\<close>

lemma getPool_cached: "pool s = Some p \<Longrightarrow> getPool w s = (Inr p, s)"
  by (simp add: getPool_def)

lemma getPool_cases:
  "getPool w s = (r, s') \<Longrightarrow>
     (\<exists>p. pool s = Some p \<and> r = Inr p \<and> s' = s)
   \<or> (\<exists>m. pool s = None \<and> createPool_throws w (trace s) = Some m \<and> r = Inl m
          \<and> s' = emit (CreatePoolThrew m) s)
   \<or> (pool s = None \<and> createPool_throws w (trace s) = None \<and> r = Inr (heap_next s)
        \<and> s' = (emit (CreatePool (heap_next s)) (s\<lparr>heap_next := Suc (heap_next s)\<rparr>))
                 \<lparr>pool := Some (heap_next s)\<rparr>)"
  by (auto simp: getPool_def createPool_def split: option.splits)

lemma getPool_inv:
  assumes "pool_inv s" and "getPool w s = (r, s')"
  shows "pool_inv s'"
  using getPool_cases [OF assms(2)] assms(1)
  by (auto simp: pool_inv_def pools_constructed_def emit_def is_CreatePool_def
      split: option.splits)

lemma getPool_returns_cached: "getPool w s = (Inr p, s') \<Longrightarrow> pool s' = Some p"
  by (auto dest!: getPool_cases simp: emit_def)

lemma getPool_calls_cached:
  "pool s = Some p \<Longrightarrow> getPool_calls w n s = (replicate n (Inr p), s)"
  by (induction n) (simp_all add: getPool_cached)

lemma getPool_calls_inv:
  "pool_inv s \<Longrightarrow> getPool_calls w n s = (rs, s') \<Longrightarrow> pool_inv s'"
proof (induction n arbitrary: s rs s')
  case 0
  then show ?case by simp
next
  case (Suc n)
  obtain r s1 where g: "getPool w s = (r, s1)" by (cases "getPool w s")
  obtain rs1 s2 where c: "getPool_calls w n s1 = (rs1, s2)" by (cases "getPool_calls w n s1")
  from Suc.prems(2) g c have "s' = s2" by simp
  moreover have "pool_inv s1" using getPool_inv [OF Suc.prems(1) g] .
  ultimately show ?case using Suc.IH c by simp
qed

lemma pool_inv_le: "pool_inv s \<Longrightarrow> pools_constructed s \<le> 1"
  by (auto simp: pool_inv_def split: option.splits)

lemma getPool_calls_stable:
  "getPool_calls w n s = (rs, s') \<Longrightarrow> i < n \<Longrightarrow> rs ! i = Inr p \<Longrightarrow> i \<le> j \<Longrightarrow> j < n
     \<Longrightarrow> rs ! j = Inr p"
proof (induction n arbitrary: s rs s' i j)
  case 0
  then show ?case by simp
next
  case (Suc n)
  obtain r s1 where g: "getPool w s = (r, s1)" by (cases "getPool w s")
  obtain rs1 s2 where c: "getPool_calls w n s1 = (rs1, s2)" by (cases "getPool_calls w n s1")
  from Suc.prems(1) g c have rs: "rs = r # rs1" by simp
  show ?case
  proof (cases i)
    case 0
    with Suc.prems(3) rs have r: "r = Inr p" by simp
    with g have "pool s1 = Some p" by (simp add: getPool_returns_cached)
    with c have "rs1 = replicate n (Inr p)" by (simp add: getPool_calls_cached)
    with rs r Suc.prems(5) show ?thesis by (cases j) simp_all
  next
    case (Suc i')
    with Suc.prems(4) obtain j' where j: "j = Suc j'" by (cases j) simp_all
    from Suc.IH [OF c, of i' j'] Suc.prems \<open>i = Suc i'\<close> j rs show ?thesis by simp
  qed
qed

text \<open>
  Claim C2. Take any process state in which the module variable agrees with the pools
  constructed so far (the state at load time is one), and any number \<open>n\<close> of calls of
  \<^verbatim>\<open>getPool()\<close>. Afterwards at most one pool has ever been constructed. Once a call
  has returned a pool, every later call returns that same object. And when the variable
  is still unset and \<^verbatim>\<open>createPool\<close> does not throw, the first call constructs the pool
  and all \<open>n\<close> calls return it, with exactly one construction added. \<^verbatim>\<open>getPool\<close> has no
  suspension point, so calls from requests in flight at the same time are calls in a row.
\<close>

theorem getPool_constructs_once:
  assumes "pool_inv s0" and "getPool_calls w n s0 = (rs, s)"
  shows "pools_constructed s \<le> 1
       \<and> (\<forall>i j p. i \<le> j \<and> j < n \<and> rs ! i = Inr p \<longrightarrow> rs ! j = Inr p)
       \<and> (pool s0 = None \<and> createPool_throws w (trace s0) = None \<and> 0 < n \<longrightarrow>
            rs = replicate n (Inr (heap_next s0))
            \<and> pools_constructed s = Suc (pools_constructed s0))"
proof (intro conjI allI impI)
  show "pools_constructed s \<le> 1"
    using getPool_calls_inv [OF assms] by (rule pool_inv_le)
next
  fix i j p
  assume "i \<le> j \<and> j < n \<and> rs ! i = Inr p"
  then show "rs ! j = Inr p"
    using getPool_calls_stable [OF assms(2), of i p j] by simp
next
  assume h: "pool s0 = None \<and> createPool_throws w (trace s0) = None \<and> 0 < n"
  then obtain m where n: "n = Suc m" by (cases n) simp_all
  let ?s1 = "(emit (CreatePool (heap_next s0)) (s0\<lparr>heap_next := Suc (heap_next s0)\<rparr>))
               \<lparr>pool := Some (heap_next s0)\<rparr>"
  have g: "getPool w s0 = (Inr (heap_next s0), ?s1)"
    using h by (simp add: getPool_def createPool_def)
  have c: "getPool_calls w m ?s1 = (replicate m (Inr (heap_next s0)), ?s1)"
    by (rule getPool_calls_cached) (simp add: emit_def)
  from assms(2) n g c have "rs = replicate n (Inr (heap_next s0))" and "s = ?s1" by simp_all
  then show "rs = replicate n (Inr (heap_next s0))"
    and "pools_constructed s = Suc (pools_constructed s0)"
    by (simp_all add: pools_constructed_def emit_def is_CreatePool_def)
qed

theorem getPool_constructs_once_witness:
  "pool_inv proc0
   \<and> getPool_calls calm 3 proc0
       = ([Inr 0, Inr 0, Inr 0], \<lparr>pool = Some 0, heap_next = 1, trace = [CreatePool 0]\<rparr>)
   \<and> pools_constructed \<lparr>pool = Some 0, heap_next = 1, trace = [CreatePool 0]\<rparr> = 1"
  using getPool_constructs_once [of proc0 calm 3 "[Inr 0, Inr 0, Inr 0]"
      "\<lparr>pool = Some 0, heap_next = 1, trace = [CreatePool 0]\<rparr>"]
  by (simp add: numeral_3_eq_3 getPool_def createPool_def calm_def proc0_def emit_def
      pool_inv_def pools_constructed_def is_CreatePool_def)

section \<open>What the schema-initialisation middleware adds to the trace\<close>

lemma init_calls_append [simp]: "init_calls (xs @ ys) = init_calls xs @ init_calls ys"
  by (induction xs rule: init_calls.induct) simp_all

lemma init_results_append [simp]:
  "init_results r (xs @ ys) = init_results r xs @ init_results r ys"
  by (induction r xs rule: init_results.induct) simp_all

lemma since_append [simp]: "trace s' = trace s @ es \<Longrightarrow> since s s' = es"
  by (simp add: since_def)

lemma since_self [simp]: "since s s = []"
  by (simp add: since_def)

lemma getController_trace:
  assumes "getController w r s = (res, s')"
  shows "\<exists>es. trace s' = trace s @ es \<and> init_calls es = [] \<and> (\<forall>q. init_results q es = [])
           \<and> (\<forall>q c m. InitTables q c m \<notin> set es)"
  using assms
  by (auto simp: getController_def getPool_def createPool_def newController_def emit_def
      split: option.splits sum.splits prod.splits)

lemma getController_class: "getController w r s = (Inr c, s') \<Longrightarrow> ctrl_class c = r"
  by (auto simp: getController_def newController_def
      split: prod.splits sum.splits option.splits)

lemma ensure_trace_ok:
  assumes "ensure w r s = (None, s')"
  shows "\<exists>es c. trace s' = trace s @ es @ [InitTables r c None] \<and> init_calls es = []
           \<and> (\<forall>q. init_results q es = []) \<and> (\<forall>q c m. InitTables q c m \<notin> set es)"
proof -
  from assms obtain c s1 where g: "getController w r s = (Inr c, s1)"
    and i: "initTables w c s1 = (None, s')"
    by (auto simp: ensure_def split: prod.splits sum.splits)
  from getController_trace [OF g] obtain es where es: "trace s1 = trace s @ es"
    "init_calls es = []" "\<forall>q. init_results q es = []"
    "\<forall>q c m. InitTables q c m \<notin> set es" by blast
  from i getController_class [OF g]
  have "trace s' = trace s1 @ [InitTables r (ctrl_ref c) None]"
    by (auto simp: initTables_def Let_def emit_def)
  with es show ?thesis by auto
qed

lemma ensure_trace_failed:
  assumes "ensure w r s = (Some m, s')"
  shows "\<exists>es. trace s' = trace s @ es
           \<and> (init_calls es = [] \<or> init_calls es = [r])
           \<and> (\<forall>q c m'. InitTables q c (Some m') \<in> set es \<longrightarrow> m' = m)"
proof -
  from assms consider (ctor) "getController w r s = (Inl m, s')"
    | (init) c s1 where "getController w r s = (Inr c, s1)" "initTables w c s1 = (Some m, s')"
    by (auto simp: ensure_def split: prod.splits sum.splits)
  then show ?thesis
  proof cases
    case ctor
    from getController_trace [OF this] show ?thesis by auto
  next
    case init
    from getController_trace [OF init(1)] obtain es where es: "trace s1 = trace s @ es"
      "init_calls es = []" "\<forall>q c m'. InitTables q c m' \<notin> set es" by blast
    from init(2) getController_class [OF init(1)]
    have "trace s' = trace s1 @ [InitTables r (ctrl_ref c) (Some m)]"
      by (auto simp: initTables_def Let_def emit_def)
    with es show ?thesis by auto
  qed
qed

lemma ensure_all_ok:
  "ensure_all w rs s = (None, s') \<Longrightarrow>
     \<exists>es. trace s' = trace s @ es \<and> init_calls es = rs
        \<and> (\<forall>q. init_results q es = replicate (count_list rs q) None)
        \<and> (\<forall>q c m. InitTables q c (Some m) \<notin> set es)"
proof (induction rs arbitrary: s)
  case Nil
  then show ?case by simp
next
  case (Cons r rs)
  from Cons.prems obtain s1 where e: "ensure w r s = (None, s1)"
    and a: "ensure_all w rs s1 = (None, s')"
    by (auto split: prod.splits option.splits)
  from ensure_trace_ok [OF e] obtain es1 c where
    es1: "trace s1 = trace s @ es1 @ [InitTables r c None]"
    "init_calls es1 = []" "\<forall>q. init_results q es1 = []"
    "\<forall>q c m. InitTables q c m \<notin> set es1" by blast
  from Cons.IH [OF a] obtain es2 where es2: "trace s' = trace s1 @ es2" "init_calls es2 = rs"
    "\<forall>q. init_results q es2 = replicate (count_list rs q) None"
    "\<forall>q c m. InitTables q c (Some m) \<notin> set es2" by blast
  let ?es = "es1 @ [InitTables r c None] @ es2"
  have "trace s' = trace s @ ?es \<and> init_calls ?es = r # rs
      \<and> (\<forall>q. init_results q ?es = replicate (count_list (r # rs) q) None)
      \<and> (\<forall>q c m. InitTables q c (Some m) \<notin> set ?es)"
    using es1 es2 by simp
  then show ?case by (rule exI)
qed

lemma ensure_all_failed:
  "ensure_all w rs s = (Some m, s') \<Longrightarrow>
     \<exists>es. trace s' = trace s @ es \<and> prefix (init_calls es) rs
        \<and> (\<forall>q c m'. InitTables q c (Some m') \<in> set es \<longrightarrow> m' = m)"
proof (induction rs arbitrary: s)
  case Nil
  then show ?case by simp
next
  case (Cons r rs)
  show ?case
  proof (cases "ensure w r s")
    case (Pair res s1)
    show ?thesis
    proof (cases res)
      case None
      with Pair Cons.prems have a: "ensure_all w rs s1 = (Some m, s')" by simp
      from ensure_trace_ok [OF Pair [unfolded None]] obtain es1 c where
        es1: "trace s1 = trace s @ es1 @ [InitTables r c None]" "init_calls es1 = []"
        "\<forall>q c m. InitTables q c m \<notin> set es1" by blast
      from Cons.IH [OF a] obtain es2 where es2: "trace s' = trace s1 @ es2"
        "prefix (init_calls es2) rs"
        "\<forall>q c m'. InitTables q c (Some m') \<in> set es2 \<longrightarrow> m' = m" by blast
      let ?es = "es1 @ [InitTables r c None] @ es2"
      have "trace s' = trace s @ ?es \<and> prefix (init_calls ?es) (r # rs)
          \<and> (\<forall>q c m'. InitTables q c (Some m') \<in> set ?es \<longrightarrow> m' = m)"
        using es1 es2 by auto
      then show ?thesis by (rule exI)
    next
      case (Some m1)
      with Pair Cons.prems have "m1 = m" "s1 = s'" by simp_all
      with Pair Some have "ensure w r s = (Some m, s')" by simp
      from ensure_trace_failed [OF this] show ?thesis by auto
    qed
  qed
qed

lemma distinct_selected: "distinct (selected p)"
  by (simp add: selected_def)

lemma count_list_distinct: "distinct xs \<Longrightarrow> x \<in> set xs \<Longrightarrow> count_list xs x = 1"
  by (induction xs) auto

lemmas schemaInit_eval =
  schemaInit_def selected_def startsWith_def ensure_def getController_def getPool_def
  createPool_def newController_def initTables_def emit_def calm_def office_down_def get_def
  proc0_def since_def Let_def

section \<open>Initialiser failures do not stop the request\<close>

text \<open>
  Claim C1. The schema-initialisation middleware ends in \<^verbatim>\<open>next()\<close>, without an argument,
  for every request, every process state and every behaviour of the collaborators. When
  a run of \<^verbatim>\<open>initTables\<close> made by it was rejected with message \<open>m\<close>, the last thing it did
  was \<^verbatim>\<open>console.error("Failed to initialize tables:", m)\<close>. In the dispatch, the layers
  registered after it then run with no error pending, so the matched handler is reached
  as it would have been. A rejection carries an \<^verbatim>\<open>Error\<close> object, as those of the
  database driver do.
\<close>

theorem schemaInit_swallows_failures:
  "fst (schemaInit w req s) = Next
   \<and> (\<forall>q c m. InitTables q c (Some m) \<in> set (since s (snd (schemaInit w req s))) \<longrightarrow>
        last (trace (snd (schemaInit w req s)))
          = ConsoleError [''Failed to initialize tables:'', m])
   \<and> dispatch w (SchemaInit # ls) None req s
       = dispatch w ls None req (snd (schemaInit w req (emit (Enter SchemaInit) s)))"
proof (intro conjI allI impI)
  show "fst (schemaInit w req s) = Next"
    by (simp add: schemaInit_def split: prod.splits option.splits)
next
  fix q c m
  assume h: "InitTables q c (Some m) \<in> set (since s (snd (schemaInit w req s)))"
  show "last (trace (snd (schemaInit w req s)))
          = ConsoleError [''Failed to initialize tables:'', m]"
  proof (cases "startsWith (path req) ''/api/''")
    case False
    with h show ?thesis by (simp add: schemaInit_def)
  next
    case True
    obtain res s1 where e: "ensure_all w (selected (path req)) s = (res, s1)"
      by (cases "ensure_all w (selected (path req)) s")
    show ?thesis
    proof (cases res)
      case None
      from ensure_all_ok [OF e [unfolded None]] obtain es where
        "trace s1 = trace s @ es" "\<forall>q c m. InitTables q c (Some m) \<notin> set es" by blast
      with h True e None show ?thesis by (simp add: schemaInit_def)
    next
      case (Some m1)
      from ensure_all_failed [OF e [unfolded Some]] obtain es where
        es: "trace s1 = trace s @ es"
        "\<forall>q c m'. InitTables q c (Some m') \<in> set es \<longrightarrow> m' = m1"
        by blast
      from True e Some es(1)
      have t: "trace (snd (schemaInit w req s))
                 = trace s @ es @ [ConsoleError [''Failed to initialize tables:'', m1]]"
        by (simp add: schemaInit_def emit_def)
      with h have "InitTables q c (Some m) \<in> set es" by simp
      with es(2) have "m = m1" by blast
      with t show ?thesis by simp
    qed
  qed
next
  show "dispatch w (SchemaInit # ls) None req s
       = dispatch w ls None req (snd (schemaInit w req (emit (Enter SchemaInit) s)))"
    by (simp add: is_error_handler_def schemaInit_def split: prod.splits option.splits)
qed

theorem schemaInit_swallows_failures_witness:
  "InitTables Office 1 (Some ''relation offices: permission denied'')
     \<in> set (since proc0 (snd (schemaInit office_down (get ''/api/jobs/7'') proc0)))
   \<and> fst (schemaInit office_down (get ''/api/jobs/7'') proc0) = Next
   \<and> last (trace (snd (schemaInit office_down (get ''/api/jobs/7'') proc0)))
       = ConsoleError
           [''Failed to initialize tables:'', ''relation offices: permission denied'']"
  using schemaInit_swallows_failures [of office_down "get ''/api/jobs/7''" proc0]
  by (simp add: schemaInit_eval)

section \<open>The database probe\<close>

lemmas testDb_eval =
  testDb_def getPool_def createPool_def connect_def query_def databaseError_def emit_def
  since_def Let_def

lemma responses_append [simp]: "responses (xs @ ys) = responses xs @ responses ys"
  by (induction xs rule: responses.induct) simp_all

lemma borrowed_append [simp]: "borrowed (xs @ ys) = borrowed xs @ borrowed ys"
  by (induction xs rule: borrowed.induct) simp_all

lemma released_append [simp]: "released (xs @ ys) = released xs @ released ys"
  by (induction xs rule: released.induct) simp_all

lemma query_results_append [simp]:
  "query_results (xs @ ys) = query_results xs @ query_results ys"
  by (induction xs rule: query_results.induct) simp_all

text \<open>Getting the pool touches neither connections nor the response.\<close>

lemma getPool_no_io:
  assumes "getPool w s = (r, s1)"
  shows "\<exists>es. trace s1 = trace s @ es \<and> responses es = [] \<and> borrowed es = []
           \<and> released es = [] \<and> query_results es = [] \<and> (\<forall>c x. Query c x \<notin> set es)"
  using getPool_cases [OF assms] by (auto simp: emit_def)

text \<open>
  Claim C8. The handler of \<^verbatim>\<open>GET /test-db\<close> always ends by sending a response. The
  connections it releases are exactly the connections it borrowed, and a client on
  which the query was issued is released once, whether the query succeeded or failed.
  When the query succeeds with timestamp \<open>now\<close> the one response is 200 with
  \<^verbatim>\<open>{success: true, time: now}\<close>; in every other case (the query fails, no connection could
  be borrowed, the pool could not be created) it is 500 with
  \<^verbatim>\<open>{success: false, error: "Database error"}\<close>.
\<close>

theorem testDb_responds_and_releases:
  "fst (testDb w s) = Ended
   \<and> released (since s (snd (testDb w s))) = borrowed (since s (snd (testDb w s)))
   \<and> (\<forall>c r. Query c r \<in> set (since s (snd (testDb w s))) \<longrightarrow>
         released (since s (snd (testDb w s))) = [c])
   \<and> (\<forall>now. query_results (since s (snd (testDb w s))) = [Inr now] \<longrightarrow>
         responses (since s (snd (testDb w s)))
           = [(200, [(''success'', JBool True), (''time'', JString now)])])
   \<and> ((\<forall>now. query_results (since s (snd (testDb w s))) \<noteq> [Inr now]) \<longrightarrow>
         responses (since s (snd (testDb w s)))
           = [(500, [(''success'', JBool False), (''error'', JString ''Database error'')])])"
proof -
  let ?failure = "\<lambda>m. [ConsoleError [''Database query error:'', m],
     Respond 500 [(''success'', JBool False), (''error'', JString ''Database error'')]]"
  obtain r s1 where g: "getPool w s = (r, s1)" by (cases "getPool w s")
  from getPool_no_io [OF g] obtain es where t1: "trace s1 = trace s @ es"
    and quiet: "responses es = []" "borrowed es = []" "released es = []"
      "query_results es = []" "\<forall>c x. Query c x \<notin> set es"
    by blast
  have exits: "\<exists>tl. fst (testDb w s) = Ended \<and> trace (snd (testDb w s)) = trace s1 @ tl
      \<and> ((\<exists>m. tl = ?failure m)
         \<or> (\<exists>m. tl = Connect (Inl m) # ?failure m)
         \<or> (\<exists>c m. tl = Connect (Inr c) # Query c (Inl m) # Release c # ?failure m)
         \<or> (\<exists>c now. tl = [Connect (Inr c), Query c (Inr now),
               Respond 200 [(''success'', JBool True), (''time'', JString now)], Release c]))"
  proof (cases r)
    case (Inl m)
    with g show ?thesis by (simp add: testDb_def databaseError_def emit_def)
  next
    case (Inr p)
    show ?thesis
    proof (cases "connect_rejects w (trace s1)")
      case (Some m)
      with g Inr show ?thesis
        by (simp add: testDb_def connect_def databaseError_def emit_def)
    next
      case None
      show ?thesis
      proof (cases "query_result w (trace s1 @ [Connect (Inr (heap_next s1))])")
        case (Inl m)
        with g Inr None show ?thesis
          by (simp add: testDb_def connect_def query_def databaseError_def emit_def Let_def)
      next
        case (Inr now)
        with g \<open>r = Inr p\<close> None show ?thesis
          by (simp add: testDb_def connect_def query_def emit_def Let_def)
      qed
    qed
  qed
  then obtain tl where e: "fst (testDb w s) = Ended" and t2: "trace (snd (testDb w s)) = trace s1 @ tl"
    and shape: "(\<exists>m. tl = ?failure m)
         \<or> (\<exists>m. tl = Connect (Inl m) # ?failure m)
         \<or> (\<exists>c m. tl = Connect (Inr c) # Query c (Inl m) # Release c # ?failure m)
         \<or> (\<exists>c now. tl = [Connect (Inr c), Query c (Inr now),
               Respond 200 [(''success'', JBool True), (''time'', JString now)], Release c])"
    by blast
  from t1 t2 have sn: "since s (snd (testDb w s)) = es @ tl" by simp
  from shape show ?thesis unfolding sn using e quiet by (elim disjE exE) simp_all
qed

theorem testDb_responds_and_releases_witness:
  "Query 1 (Inl ''connection terminated'') \<in> set (since proc0 (snd (testDb db_down proc0)))
   \<and> released (since proc0 (snd (testDb db_down proc0))) = [1]
   \<and> responses (since proc0 (snd (testDb db_down proc0)))
        = [(500, [(''success'', JBool False), (''error'', JString ''Database error'')])]
   \<and> query_results (since proc0 (snd (testDb calm proc0))) = [Inr ''2026-01-01T00:00:00Z'']
   \<and> responses (since proc0 (snd (testDb calm proc0)))
        = [(200, [(''success'', JBool True), (''time'', JString ''2026-01-01T00:00:00Z'')])]
   \<and> released (since proc0 (snd (testDb calm proc0))) = [1]"
  using testDb_responds_and_releases [of db_down proc0]
    testDb_responds_and_releases [of calm proc0]
  by (simp add: testDb_eval db_down_def calm_def proc0_def)

section \<open>The CORS policy\<close>

lemma split_comma_nonempty: "split_comma v \<noteq> []"
  by (induction v) (auto split: list.splits)

lemma join_split_comma: "join '','' (split_comma v) = v"
proof (induction v)
  case Nil
  then show ?case by simp
next
  case (Cons c cs)
  show ?case
  proof (cases "c = CHR '',''")
    case True
    with Cons show ?thesis
      by (cases "split_comma cs") (simp_all add: split_comma_nonempty)
  next
    case False
    obtain x xs where sc: "split_comma cs = x # xs"
      using split_comma_nonempty [of cs] by (cases "split_comma cs") simp_all
    with False Cons show ?thesis by (cases xs) simp_all
  qed
qed

lemma split_comma_no_comma: "x \<in> set (split_comma v) \<Longrightarrow> CHR '','' \<notin> set x"
  by (induction v arbitrary: x) (auto split: if_splits list.splits)

text \<open>
  Claim C7. In production the origins allowed are the four built in and the pieces of
  \<^verbatim>\<open>ALLOWED_ORIGINS\<close> between its commas, and no others; a request without an origin is
  not allowed one. Outside production every origin is allowed. The \<^verbatim>\<open>cors\<close>
  middleware writes \<^verbatim>\<open>Access-Control-Allow-Origin\<close> for exactly the allowed origins. In
  both modes the methods are GET, POST, PUT, DELETE and OPTIONS, and that is the list a
  preflight is answered with.
\<close>

theorem cors_policy:
  "(production env \<longrightarrow>
      (isOriginAllowed (Some x) (cors_origin (corsOptions env))
         \<longleftrightarrow> x \<in> set allowedOrigins \<or> x \<in> set (additionalOrigins env))
      \<and> \<not> isOriginAllowed None (cors_origin (corsOptions env)))
   \<and> (\<not> production env \<longrightarrow> isOriginAllowed requestOrigin (cors_origin (corsOptions env)))
   \<and> cors_methods (corsOptions env) = [''GET'', ''POST'', ''PUT'', ''DELETE'', ''OPTIONS'']
   \<and> (\<forall>v. env ''ALLOWED_ORIGINS'' = Some v \<and> v \<noteq> [] \<longrightarrow>
         join '','' (additionalOrigins env) = v
         \<and> (\<forall>y \<in> set (additionalOrigins env). CHR '','' \<notin> set y))
   \<and> (\<not> truthy (env ''ALLOWED_ORIGINS'') \<longrightarrow> additionalOrigins env = [])
   \<and> (SetHeader ''Access-Control-Allow-Origin'' x
         \<in> set (since s (snd (cors (corsOptions env) req s)))
       \<longleftrightarrow> origin req = Some x \<and> x \<noteq> []
           \<and> isOriginAllowed (Some x) (cors_origin (corsOptions env)))
   \<and> (req_method req = ''OPTIONS'' \<longrightarrow>
         SetHeader ''Access-Control-Allow-Methods'' ''GET,POST,PUT,DELETE,OPTIONS''
           \<in> set (since s (snd (cors (corsOptions env) req s))))"
proof (intro conjI impI allI)
  show "SetHeader ''Access-Control-Allow-Origin'' x
         \<in> set (since s (snd (cors (corsOptions env) req s)))
       \<longleftrightarrow> origin req = Some x \<and> x \<noteq> []
           \<and> isOriginAllowed (Some x) (cors_origin (corsOptions env))"
    by (auto simp: cors_def emits_def emit_def since_def configureOrigin_def
        configureCredentials_def configureMethods_def configureAllowedHeaders_def
        split: option.splits)
next
  assume "req_method req = ''OPTIONS''"
  then show "SetHeader ''Access-Control-Allow-Methods'' ''GET,POST,PUT,DELETE,OPTIONS''
           \<in> set (since s (snd (cors (corsOptions env) req s)))"
    by (simp add: cors_def emits_def emit_def since_def configureMethods_def corsOptions_def)
next
  fix v
  assume "env ''ALLOWED_ORIGINS'' = Some v \<and> v \<noteq> []"
  then show "join '','' (additionalOrigins env) = v"
    and "\<forall>y \<in> set (additionalOrigins env). CHR '','' \<notin> set y"
    by (auto simp: additionalOrigins_def join_split_comma dest: split_comma_no_comma)
qed (auto simp: corsOptions_def isOriginAllowed_def allOrigins_def additionalOrigins_def
      truthy_def split: option.splits)

lemmas cors_eval =
  corsOptions_def isOriginAllowed_def allOrigins_def additionalOrigins_def allowedOrigins_def
  production_def prod_env_def truthy_def cors_def emits_def emit_def since_def
  configureOrigin_def configureCredentials_def configureMethods_def
  configureAllowedHeaders_def options_def proc0_def

theorem cors_policy_witness:
  "production prod_env
   \<and> additionalOrigins prod_env = [''https://a.example'', ''https://b.example'']
   \<and> isOriginAllowed (Some ''https://b.example'') (cors_origin (corsOptions prod_env))
   \<and> \<not> isOriginAllowed (Some ''https://evil.example'') (cors_origin (corsOptions prod_env))
   \<and> \<not> production Map.empty
   \<and> isOriginAllowed (Some ''https://evil.example'') (cors_origin (corsOptions Map.empty))
   \<and> req_method (options ''/api/jobs'' ''https://evil.example'') = ''OPTIONS''
   \<and> SetHeader ''Access-Control-Allow-Origin'' ''https://evil.example''
        \<notin> set (since proc0
             (snd (cors (corsOptions prod_env) (options ''/api/jobs'' ''https://evil.example'')
                proc0)))
   \<and> SetHeader ''Access-Control-Allow-Methods'' ''GET,POST,PUT,DELETE,OPTIONS''
        \<in> set (since proc0
             (snd (cors (corsOptions prod_env) (options ''/api/jobs'' ''https://evil.example'')
                proc0)))"
  using cors_policy [of prod_env "''https://evil.example''" None proc0
      "options ''/api/jobs'' ''https://evil.example''"]
    cors_policy [of Map.empty "''https://evil.example''" "Some ''https://evil.example''"]
  by (simp add: cors_eval)

section \<open>The configuration check at load time\<close>

lemma missingEnvVars_iff:
  "v \<in> set (missingEnvVars env) \<longleftrightarrow> v \<in> set requiredEnvVars \<and> \<not> truthy (env v)"
  by (auto simp: missingEnvVars_def)

text \<open>
  Claim C10. In production, with at least one of the five required variables unset,
  loading the module writes three lines to the error console, the first of which lists,
  separated by a comma and a space, the required variables that are unset or empty, in
  the order of the source. Loading then goes on: the application is built with all its
  layers and its CORS options, and it is what the module exports. The check has no branch
  that throws or exits.
\<close>

theorem missing_configuration_does_not_abort:
  assumes "production env" and "\<exists>v \<in> set requiredEnvVars. env v = None"
  shows "console (load_module env)
           = [ConsoleError
                [[CHR 0xE2, CHR 0x9D, CHR 0x8C] @ '' Missing required environment variables:'',
                 join '', '' (missingEnvVars env)],
              ConsoleError
                [''Please ensure all required environment variables are set in your Vercel deployment.''],
              ConsoleError
                [''Continuing with deployment but some features may not work properly.'']]
       \<and> (\<forall>v. v \<in> set (missingEnvVars env)
              \<longleftrightarrow> v \<in> set requiredEnvVars \<and> \<not> truthy (env v))
       \<and> layers (load_module env) = app_stack
       \<and> cors_config (load_module env) = corsOptions env"
proof -
  from assms(2) obtain v where "v \<in> set requiredEnvVars" "env v = None" by blast
  then have "v \<in> set (missingEnvVars env)" by (simp add: missingEnvVars_iff truthy_def)
  then have "length (missingEnvVars env) > 0" by (cases "missingEnvVars env") simp_all
  with assms(1) show ?thesis
    by (simp add: load_module_def envCheck_def missingEnvVars_iff)
qed

theorem missing_configuration_does_not_abort_witness:
  "production prod_env
   \<and> ''JWT_SECRET'' \<in> set requiredEnvVars \<and> prod_env ''JWT_SECRET'' = None
   \<and> console (load_module prod_env)
           = [ConsoleError
                [[CHR 0xE2, CHR 0x9D, CHR 0x8C] @ '' Missing required environment variables:'',
                 ''JWT_SECRET, DB_USER, DB_PASSWORD, DB_DATABASE''],
              ConsoleError
                [''Please ensure all required environment variables are set in your Vercel deployment.''],
              ConsoleError
                [''Continuing with deployment but some features may not work properly.'']]
   \<and> layers (load_module prod_env) = app_stack"
  using missing_configuration_does_not_abort [of prod_env]
  by (auto simp: production_def prod_env_def requiredEnvVars_def missingEnvVars_def truthy_def)

section \<open>The discipline of the pipeline\<close>

lemma entered_append [simp]: "entered (xs @ ys) = entered xs @ entered ys"
  by (induction xs rule: entered.induct) simp_all

lemma controllers_used_append [simp]:
  "controllers_used r (xs @ ys) = controllers_used r xs @ controllers_used r ys"
  by (induction r xs rule: controllers_used.induct) simp_all

lemma pools_created_append [simp]:
  "pools_created (xs @ ys) = pools_created xs @ pools_created ys"
  by (induction xs rule: pools_created.induct) simp_all

lemma pools_bound_append [simp]: "pools_bound (xs @ ys) = pools_bound xs @ pools_bound ys"
  by (induction xs rule: pools_bound.induct) simp_all

lemma grows_refl: "grows s [] s"
  by (simp add: grows_def)

lemma grows_trans:
  assumes "grows s es1 s1" and "grows s1 es2 s2"
  shows "grows s (es1 @ es2) s2"
  using assms unfolding grows_def by (fastforce simp: Ball_def)

lemma grows_emit:
  "pools_created [e] = [] \<Longrightarrow> pools_bound [e] = [] \<Longrightarrow> (\<forall>r. controllers_used r [e] = [])
     \<Longrightarrow> grows s [e] (emit e s)"
  by (simp add: grows_def emit_def)

lemma grows_since: "grows s es s' \<Longrightarrow> since s s' = es"
  by (simp add: grows_def)

lemma getPool_grows:
  "getPool w s = (res, s') \<Longrightarrow> \<exists>es. grows s es s' \<and> entered es = []"
  by (auto dest!: getPool_cases simp: grows_def emit_def)

lemma getController_grows:
  "getController w r s = (res, s') \<Longrightarrow> \<exists>es. grows s es s' \<and> entered es = []"
  by (auto simp: getController_def newController_def grows_def emit_def
      dest!: getPool_cases split: prod.splits sum.splits option.splits)

lemma ensure_grows:
  "ensure w r s = (res, s') \<Longrightarrow> \<exists>es. grows s es s' \<and> entered es = []"
proof -
  assume a: "ensure w r s = (res, s')"
  obtain g s1 where g: "getController w r s = (g, s1)" by (cases "getController w r s")
  from getController_grows [OF g] obtain es1 where es1: "grows s es1 s1" "entered es1 = []"
    by blast
  show ?thesis
  proof (cases g)
    case (Inl m)
    with a g have "s' = s1" by (simp add: ensure_def)
    with es1 show ?thesis by blast
  next
    case (Inr c)
    with a g have "s' = emit (InitTables (ctrl_class c) (ctrl_ref c) res) s1"
      by (auto simp: ensure_def initTables_def Let_def)
    then have "grows s1 [InitTables (ctrl_class c) (ctrl_ref c) res] s'"
      by (simp add: grows_emit)
    from grows_trans [OF es1(1) this] es1(2) show ?thesis
      by (intro exI [of _ "es1 @ [InitTables (ctrl_class c) (ctrl_ref c) res]"]) simp
  qed
qed

lemma ensure_all_grows:
  "ensure_all w rs s = (res, s') \<Longrightarrow> \<exists>es. grows s es s' \<and> entered es = []"
proof (induction rs arbitrary: s)
  case Nil
  then show ?case by (auto intro: grows_refl exI [of _ "[]"])
next
  case (Cons r rs)
  obtain x s1 where e: "ensure w r s = (x, s1)" by (cases "ensure w r s")
  from ensure_grows [OF e] obtain es1 where es1: "grows s es1 s1" "entered es1 = []" by blast
  show ?case
  proof (cases x)
    case None
    with Cons.prems e have "ensure_all w rs s1 = (res, s')" by simp
    from Cons.IH [OF this] obtain es2 where "grows s1 es2 s'" "entered es2 = []" by blast
    with es1 grows_trans [of s es1 s1 es2 s'] show ?thesis
      by (intro exI [of _ "es1 @ es2"]) simp
  next
    case (Some m)
    with Cons.prems e have "s' = s1" by simp
    with es1 show ?thesis by blast
  qed
qed

lemma schemaInit_grows:
  "schemaInit w req s = (out, s') \<Longrightarrow> \<exists>es. grows s es s' \<and> entered es = []"
proof (cases "startsWith (path req) ''/api/''")
  case False
  assume "schemaInit w req s = (out, s')"
  with False have "s' = s" by (simp add: schemaInit_def)
  then show ?thesis by (auto intro: grows_refl exI [of _ "[]"])
next
  case True
  assume a: "schemaInit w req s = (out, s')"
  obtain x s1 where e: "ensure_all w (selected (path req)) s = (x, s1)"
    by (cases "ensure_all w (selected (path req)) s")
  from ensure_all_grows [OF e] obtain es1 where es1: "grows s es1 s1" "entered es1 = []"
    by blast
  show ?thesis
  proof (cases x)
    case None
    with a True e have "s' = s1" by (simp add: schemaInit_def)
    with es1 show ?thesis by blast
  next
    case (Some m)
    with a True e have "s' = emit (ConsoleError [''Failed to initialize tables:'', m]) s1"
      by (simp add: schemaInit_def)
    then have "grows s1 [ConsoleError [''Failed to initialize tables:'', m]] s'"
      by (simp add: grows_emit)
    from grows_trans [OF es1(1) this] es1(2) show ?thesis
      by (intro exI [of _ "es1 @ [ConsoleError [''Failed to initialize tables:'', m]]"]) simp
  qed
qed

lemma act_grows: "act c s = (out, s') \<Longrightarrow> \<exists>es. grows s es s' \<and> entered es = []"
  by (cases c) (auto simp: act_def grows_def emit_def)

lemma testDb_grows: "testDb w s = (out, s') \<Longrightarrow> \<exists>es. grows s es s' \<and> entered es = []"
  by (auto simp: testDb_def connect_def query_def databaseError_def grows_def emit_def Let_def
      dest!: getPool_cases split: prod.splits sum.splits option.splits)

lemma root_grows: "root s = (out, s') \<Longrightarrow> \<exists>es. grows s es s' \<and> entered es = []"
  by (auto simp: root_def grows_def emit_def)

lemma jsonParser_grows:
  "jsonParser req s = (out, s') \<Longrightarrow> \<exists>es. grows s es s' \<and> entered es = []"
  by (auto simp: jsonParser_def grows_def split: if_splits option.splits)

lemma urlencodedParser_grows:
  "urlencodedParser req s = (out, s') \<Longrightarrow> \<exists>es. grows s es s' \<and> entered es = []"
  by (auto simp: urlencodedParser_def grows_def split: if_splits option.splits)

lemma pools_created_headers [simp]:
  "pools_created (configureOrigin opts req) = []"
  "pools_created (configureCredentials opts) = []"
  "pools_created (configureMethods opts) = []"
  "pools_created (configureAllowedHeaders opts) = []"
  by (auto simp: configureOrigin_def configureCredentials_def configureMethods_def
      configureAllowedHeaders_def split: option.splits)

lemma pools_bound_headers [simp]:
  "pools_bound (configureOrigin opts req) = []" "pools_bound (configureCredentials opts) = []"
  "pools_bound (configureMethods opts) = []" "pools_bound (configureAllowedHeaders opts) = []"
  by (auto simp: configureOrigin_def configureCredentials_def configureMethods_def
      configureAllowedHeaders_def split: option.splits)

lemma controllers_used_headers [simp]:
  "controllers_used r (configureOrigin opts req) = []"
  "controllers_used r (configureCredentials opts) = []"
  "controllers_used r (configureMethods opts) = []"
  "controllers_used r (configureAllowedHeaders opts) = []"
  by (auto simp: configureOrigin_def configureCredentials_def configureMethods_def
      configureAllowedHeaders_def split: option.splits)

lemma entered_headers [simp]:
  "entered (configureOrigin opts req) = []" "entered (configureCredentials opts) = []"
  "entered (configureMethods opts) = []" "entered (configureAllowedHeaders opts) = []"
  by (auto simp: configureOrigin_def configureCredentials_def configureMethods_def
      configureAllowedHeaders_def split: option.splits)

lemma cors_grows: "cors opts req s = (out, s') \<Longrightarrow> \<exists>es. grows s es s' \<and> entered es = []"
  by (auto simp: cors_def grows_def emit_def emits_def split: if_splits)

lemma getController_quiet:
  "getController w r s = (res, s') \<Longrightarrow>
     \<exists>es. grows s es s' \<and> entered es = [] \<and> (\<forall>q. controllers_used q es = [])"
  by (auto simp: getController_def newController_def grows_def emit_def
      dest!: getPool_cases split: prod.splits sum.splits option.splits)

lemma getController_fresh:
  "getController w r s = (Inr c, s') \<Longrightarrow>
     heap_next s \<le> ctrl_ref c \<and> ctrl_ref c < heap_next s' \<and> (\<exists>p. pool s' = Some p)"
  by (auto simp: getController_def newController_def emit_def
      dest!: getPool_cases split: prod.splits sum.splits option.splits)

lemma routerMount_grows:
  assumes "routerMount w r req s = (out, s')"
  shows "\<exists>es. grows s es s' \<and> entered es = []"
proof -
  obtain g s1 where gc: "getController w r s = (g, s1)" by (cases "getController w r s")
  from getController_quiet [OF gc] obtain es1 where es1: "grows s es1 s1" "entered es1 = []"
    "\<forall>q. controllers_used q es1 = []" by blast
  show ?thesis
  proof (cases g)
    case (Inl m)
    with assms gc have "s' = s1" by (simp add: routerMount_def)
    with es1 show ?thesis by blast
  next
    case (Inr c)
    from getController_fresh [OF gc [unfolded Inr]] obtain p where
      c: "heap_next s \<le> ctrl_ref c" "ctrl_ref c < heap_next s1" and p: "pool s1 = Some p"
      by blast
    define vs where "vs = (if r = Auth then [] else [VerifyToken p])"
    define s3 where "s3 = emit (CreateRouter r (ctrl_ref c)) (emits vs s1)"
    have run: "routerMount w r req s = act (router_result w r req (trace s3)) s3"
      using gc Inr p
      by (simp add: routerMount_def getPool_cached s3_def vs_def emits_def emit_def Let_def)
    have g1: "grows s (es1 @ vs @ [CreateRouter r (ctrl_ref c)]) s3"
      using es1 c by (auto simp: grows_def s3_def vs_def emit_def emits_def)
    from assms run act_grows obtain es3 where g3: "grows s3 es3 s'" and "entered es3 = []"
      by metis
    from g1 g3 have "grows s ((es1 @ vs @ [CreateRouter r (ctrl_ref c)]) @ es3) s'"
      by (rule grows_trans)
    moreover have "entered ((es1 @ vs @ [CreateRouter r (ctrl_ref c)]) @ es3) = []"
      using es1(2) \<open>entered es3 = []\<close> by (simp add: vs_def)
    ultimately show ?thesis by blast
  qed
qed

lemma run_layer_grows:
  "run_layer w l req s = (out, s') \<Longrightarrow> \<exists>es. grows s es s' \<and> entered es = []"
proof (cases l)
  case Helmet
  assume "run_layer w l req s = (out, s')"
  with Helmet show ?thesis by (auto intro: grows_refl exI [of _ "[]"])
next
  case Compression
  assume "run_layer w l req s = (out, s')"
  with Compression show ?thesis by (auto intro: grows_refl exI [of _ "[]"])
next
  case AccessLog
  assume "run_layer w l req s = (out, s')"
  with AccessLog show ?thesis by (auto intro: grows_refl exI [of _ "[]"])
next
  case ErrorHandler
  assume "run_layer w l req s = (out, s')"
  with ErrorHandler show ?thesis by (auto intro: grows_refl exI [of _ "[]"])
qed (auto dest: cors_grows jsonParser_grows urlencodedParser_grows schemaInit_grows act_grows routerMount_grows
      testDb_grows root_grows)

lemma run_error_layer_grows:
  "run_error_layer w e req s = (out, s') \<Longrightarrow> \<exists>es. grows s es s' \<and> entered es = []"
  by (auto simp: run_error_layer_def dest: act_grows)

lemma finalhandler_grows: "\<exists>es. grows s es (finalhandler pending s) \<and> entered es = []"
  by (auto simp: finalhandler_def grows_def emit_def split: option.splits)

lemma grows_enter:
  assumes "grows (emit (Enter l) s) es s'"
  shows "grows s (Enter l # es) s'"
proof -
  have "grows s [Enter l] (emit (Enter l) s)" by (simp add: grows_emit)
  from grows_trans [OF this assms] show ?thesis by simp
qed

lemma dispatch_grows:
  "\<exists>es. grows s es (dispatch w ls pending req s)
        \<and> subseq (entered es) (filter (\<lambda>l. layer_matches l req) ls)"
proof (induction ls arbitrary: pending s)
  case Nil
  from finalhandler_grows [of s pending] show ?case by auto
next
  case (Cons l ls)
  let ?G = "\<exists>es. grows s es (dispatch w (l # ls) pending req s)
        \<and> subseq (entered es) (filter (\<lambda>l. layer_matches l req) (l # ls))"
  show ?case
  proof (cases "layer_matches l req")
    case False
    with Cons.IH [of s pending] show ?thesis by simp
  next
    case True
    have skip: "dispatch w (l # ls) pending req s = dispatch w ls pending req s \<Longrightarrow> ?G"
    proof -
      assume eq: "dispatch w (l # ls) pending req s = dispatch w ls pending req s"
      from Cons.IH [of s pending] obtain es where "grows s es (dispatch w ls pending req s)"
        "subseq (entered es) (filter (\<lambda>l. layer_matches l req) ls)" by blast
      with eq True show ?G by (intro exI [of _ es]) (simp add: list_emb_Cons)
    qed
    have step: "\<And>out s1 es1. grows (emit (Enter l) s) es1 s1 \<Longrightarrow> entered es1 = [] \<Longrightarrow>
       dispatch w (l # ls) pending req s
         = (case out of Next \<Rightarrow> dispatch w ls None req s1
            | NextErr e \<Rightarrow> dispatch w ls (Some e) req s1 | Ended \<Rightarrow> s1) \<Longrightarrow> ?G"
    proof -
      fix out s1 es1
      assume g: "grows (emit (Enter l) s) es1 s1" and q: "entered es1 = []"
        and eq: "dispatch w (l # ls) pending req s
         = (case out of Next \<Rightarrow> dispatch w ls None req s1
            | NextErr e \<Rightarrow> dispatch w ls (Some e) req s1 | Ended \<Rightarrow> s1)"
      have g1: "grows s (Enter l # es1) s1" using g by (rule grows_enter)
      show ?G
      proof (cases out)
        case Ended
        with eq g1 q True show ?G by (intro exI [of _ "Enter l # es1"]) simp
      next
        case Next
        from Cons.IH [of s1 None] obtain es2 where es2: "grows s1 es2 (dispatch w ls None req s1)"
          "subseq (entered es2) (filter (\<lambda>l. layer_matches l req) ls)" by blast
        from grows_trans [OF g1 es2(1)] eq Next q es2(2) True show ?G
          by (intro exI [of _ "(Enter l # es1) @ es2"]) simp
      next
        case (NextErr e)
        from Cons.IH [of s1 "Some e"] obtain es2 where
          es2: "grows s1 es2 (dispatch w ls (Some e) req s1)"
          "subseq (entered es2) (filter (\<lambda>l. layer_matches l req) ls)" by blast
        from grows_trans [OF g1 es2(1)] eq NextErr q es2(2) True show ?G
          by (intro exI [of _ "(Enter l # es1) @ es2"]) simp
      qed
    qed
    show ?thesis
    proof (cases pending)
      case None
      show ?thesis
      proof (cases "is_error_handler l")
        case True
        with None \<open>layer_matches l req\<close> show ?thesis by (intro skip) simp
      next
        case False
        obtain out s1 where r: "run_layer w l req (emit (Enter l) s) = (out, s1)"
          by (cases "run_layer w l req (emit (Enter l) s)")
        from run_layer_grows [OF r] obtain es1 where
          g: "grows (emit (Enter l) s) es1 s1" "entered es1 = []" by blast
        have "dispatch w (l # ls) pending req s
                = (case out of Next \<Rightarrow> dispatch w ls None req s1
                   | NextErr e \<Rightarrow> dispatch w ls (Some e) req s1 | Ended \<Rightarrow> s1)"
          using None False \<open>layer_matches l req\<close> r by (simp split: outcome.splits)
        from step [OF g this] show ?thesis .
      qed
    next
      case (Some e)
      show ?thesis
      proof (cases "is_error_handler l")
        case False
        with Some \<open>layer_matches l req\<close> show ?thesis by (intro skip) simp
      next
        case True
        obtain out s1 where r: "run_error_layer w e req (emit (Enter l) s) = (out, s1)"
          by (cases "run_error_layer w e req (emit (Enter l) s)")
        from run_error_layer_grows [OF r] obtain es1 where
          g: "grows (emit (Enter l) s) es1 s1" "entered es1 = []" by blast
        have "dispatch w (l # ls) pending req s
                = (case out of Next \<Rightarrow> dispatch w ls None req s1
                   | NextErr e \<Rightarrow> dispatch w ls (Some e) req s1 | Ended \<Rightarrow> s1)"
          using Some True \<open>layer_matches l req\<close> r by (simp split: outcome.splits)
        from step [OF g this] show ?thesis .
      qed
    qed
  qed
qed

section \<open>Controllers are constructed per dispatch, the pool once\<close>

lemma handle_request_grows: "\<exists>es. grows s es (handle_request w req s)"
  using dispatch_grows [of s w app_stack None req] by (auto simp: handle_request_def)

lemma serve_grows: "\<exists>es. grows s es (serve w reqs s)"
proof (induction reqs arbitrary: s)
  case Nil
  show ?case by (auto intro: grows_refl)
next
  case (Cons req reqs)
  from handle_request_grows obtain es1 where "grows s es1 (handle_request w req s)" by blast
  moreover from Cons.IH obtain es2 where
    "grows (handle_request w req s) es2 (serve w reqs (handle_request w req s))" by blast
  ultimately show ?case by (auto dest: grows_trans)
qed

lemma filter_CreatePool: "length (filter is_CreatePool es) = length (pools_created es)"
  by (induction es rule: pools_created.induct) (simp_all add: is_CreatePool_def)

lemma pools_constructed_created: "pools_constructed s = length (pools_created (trace s))"
  by (simp add: pools_constructed_def filter_CreatePool)

text \<open>
  Every state the process reaches by serving requests is one in which the module
  variable agrees with the pools constructed so far, the state the theorem on
  \<^verbatim>\<open>getPool\<close> starts from.
\<close>

lemma serve_pool_inv: "pool_inv (serve w reqs proc0)"
proof -
  from serve_grows [of proc0 w reqs] obtain es where g: "grows proc0 es (serve w reqs proc0)"
    by blast
  then have "trace (serve w reqs proc0) = es" by (simp add: grows_def proc0_def)
  with g show ?thesis
    by (auto simp: grows_def pool_inv_def pools_constructed_created proc0_def
        split: if_splits option.splits)
qed

lemma silent_refl: "silent s s"
  by (simp add: silent_def)

lemma silent_trans: "silent s s1 \<Longrightarrow> silent s1 s2 \<Longrightarrow> silent s s2"
  unfolding silent_def
proof -
  assume "\<exists>es. trace s1 = trace s @ es \<and> entered es = [] \<and> (\<forall>q. controllers_used q es = [])"
    and "\<exists>es. trace s2 = trace s1 @ es \<and> entered es = [] \<and> (\<forall>q. controllers_used q es = [])"
  then obtain es1 es2 where 1: "trace s1 = trace s @ es1" "entered es1 = []"
    "\<forall>q. controllers_used q es1 = []"
    and 2: "trace s2 = trace s1 @ es2" "entered es2 = []" "\<forall>q. controllers_used q es2 = []"
    by blast
  then have "trace s2 = trace s @ (es1 @ es2) \<and> entered (es1 @ es2) = []
      \<and> (\<forall>q. controllers_used q (es1 @ es2) = [])" by simp
  then show "\<exists>es. trace s2 = trace s @ es \<and> entered es = [] \<and> (\<forall>q. controllers_used q es = [])"
    by (rule exI)
qed

lemma silent_emit:
  "entered [e] = [] \<Longrightarrow> (\<forall>q. controllers_used q [e] = []) \<Longrightarrow> silent s (emit e s)"
  by (simp add: silent_def emit_def)

lemma getPool_silent: "getPool w s = (r, s') \<Longrightarrow> silent s s'"
  by (auto dest!: getPool_cases simp: silent_def emit_def)

lemma getController_silent: "getController w r s = (g, s') \<Longrightarrow> silent s s'"
  using getController_quiet [of w r s g s'] by (auto simp: silent_def grows_def)

lemma ensure_silent: "ensure w r s = (x, s') \<Longrightarrow> silent s s'"
proof -
  assume a: "ensure w r s = (x, s')"
  obtain g s1 where gc: "getController w r s = (g, s1)" by (cases "getController w r s")
  then have s1: "silent s s1" by (rule getController_silent)
  show ?thesis
  proof (cases g)
    case (Inl m)
    with a gc s1 show ?thesis by (simp add: ensure_def)
  next
    case (Inr c)
    with a gc have "s' = emit (InitTables (ctrl_class c) (ctrl_ref c) x) s1"
      by (auto simp: ensure_def initTables_def Let_def)
    then have "silent s1 s'" by (simp add: silent_emit)
    with s1 show ?thesis by (rule silent_trans)
  qed
qed

lemma ensure_all_silent: "ensure_all w rs s = (x, s') \<Longrightarrow> silent s s'"
proof (induction rs arbitrary: s)
  case Nil
  then show ?case by (simp add: silent_refl)
next
  case (Cons r rs)
  obtain y s1 where e: "ensure w r s = (y, s1)" by (cases "ensure w r s")
  then have s1: "silent s s1" by (rule ensure_silent)
  show ?case
  proof (cases y)
    case None
    with Cons.prems e have "ensure_all w rs s1 = (x, s')" by simp
    then have "silent s1 s'" by (rule Cons.IH)
    with s1 show ?thesis by (rule silent_trans)
  next
    case (Some m)
    with Cons.prems e s1 show ?thesis by simp
  qed
qed

lemma schemaInit_silent: "schemaInit w req s = (out, s') \<Longrightarrow> silent s s'"
proof (cases "startsWith (path req) ''/api/''")
  case False
  assume "schemaInit w req s = (out, s')"
  with False show ?thesis by (simp add: schemaInit_def silent_refl)
next
  case True
  assume a: "schemaInit w req s = (out, s')"
  obtain x s1 where e: "ensure_all w (selected (path req)) s = (x, s1)"
    by (cases "ensure_all w (selected (path req)) s")
  then have s1: "silent s s1" by (rule ensure_all_silent)
  show ?thesis
  proof (cases x)
    case None
    with a True e s1 show ?thesis by (simp add: schemaInit_def)
  next
    case (Some m)
    with a True e have "s' = emit (ConsoleError [''Failed to initialize tables:'', m]) s1"
      by (simp add: schemaInit_def)
    then have "silent s1 s'" by (simp add: silent_emit)
    with s1 show ?thesis by (rule silent_trans)
  qed
qed

lemma act_silent: "act c s = (out, s') \<Longrightarrow> silent s s'"
  by (cases c) (auto simp: act_def silent_def emit_def)

lemma testDb_silent: "testDb w s = (out, s') \<Longrightarrow> silent s s'"
  by (auto simp: testDb_def connect_def query_def databaseError_def silent_def emit_def Let_def
      dest!: getPool_cases split: prod.splits sum.splits option.splits)

lemma root_silent: "root s = (out, s') \<Longrightarrow> silent s s'"
  by (auto simp: root_def silent_def emit_def)

lemma jsonParser_silent: "jsonParser req s = (out, s') \<Longrightarrow> silent s s'"
  by (auto simp: jsonParser_def silent_def split: if_splits option.splits)

lemma urlencodedParser_silent: "urlencodedParser req s = (out, s') \<Longrightarrow> silent s s'"
  by (auto simp: urlencodedParser_def silent_def split: if_splits option.splits)

lemma cors_silent: "cors opts req s = (out, s') \<Longrightarrow> silent s s'"
  by (auto simp: cors_def silent_def emit_def emits_def split: if_splits)

lemma finalhandler_silent: "silent s (finalhandler pending s)"
  by (auto simp: finalhandler_def silent_def emit_def split: option.splits)

lemma run_error_layer_silent: "run_error_layer w e req s = (out, s') \<Longrightarrow> silent s s'"
  by (auto simp: run_error_layer_def dest: act_silent)

text \<open>What a dispatch to a router adds: the controller it constructed, handed over once.\<close>

lemma routerMount_hands:
  assumes "routerMount w r req s = (out, s')"
  shows "\<exists>es. trace s' = trace s @ es \<and> entered es = []
           \<and> (\<forall>q. controllers_used q es
                    = (case fst (getController w r s) of
                         Inl m \<Rightarrow> []
                       | Inr c \<Rightarrow> if q = r then [ctrl_ref c] else []))"
proof -
  obtain g s1 where gc: "getController w r s = (g, s1)" by (cases "getController w r s")
  from getController_silent [OF gc] obtain es1 where es1: "trace s1 = trace s @ es1"
    "entered es1 = []" "\<forall>q. controllers_used q es1 = []" by (auto simp: silent_def)
  show ?thesis
  proof (cases g)
    case (Inl m)
    with assms gc have "s' = s1" by (simp add: routerMount_def)
    with es1 gc Inl show ?thesis by auto
  next
    case (Inr c)
    from getController_fresh [OF gc [unfolded Inr]] obtain p where p: "pool s1 = Some p"
      by blast
    define vs where "vs = (if r = Auth then [] else [VerifyToken p])"
    define s3 where "s3 = emit (CreateRouter r (ctrl_ref c)) (emits vs s1)"
    have run: "routerMount w r req s = act (router_result w r req (trace s3)) s3"
      using gc Inr p
      by (simp add: routerMount_def getPool_cached s3_def vs_def emits_def emit_def Let_def)
    with assms act_silent obtain es3 where es3: "trace s' = trace s3 @ es3" "entered es3 = []"
      "\<forall>q. controllers_used q es3 = []" by (metis silent_def)
    let ?es = "es1 @ vs @ [CreateRouter r (ctrl_ref c)] @ es3"
    have "trace s' = trace s @ ?es \<and> entered ?es = []
           \<and> (\<forall>q. controllers_used q ?es = (if q = r then [ctrl_ref c] else []))"
      using es1 es3 by (simp add: s3_def vs_def emit_def emits_def)
    with gc Inr show ?thesis by (intro exI [of _ ?es]) simp
  qed
qed

lemma getController_constructs:
  "getController w r s = (Inr c, s1) \<Longrightarrow>
     \<exists>es. trace s1 = trace s @ es \<and> NewController r (ctrl_ref c) (ctrl_pool c) \<in> set es
        \<and> heap_next s \<le> ctrl_ref c \<and> pool s1 = Some (ctrl_pool c)"
  by (auto simp: getController_def newController_def emit_def
      dest!: getPool_cases split: prod.splits sum.splits option.splits)

lemma never_throws_constructs:
  assumes "\<forall>tr. createPool_throws w tr = None" and "\<forall>tr. constructor_throws w r tr = None"
  shows "\<exists>c. fst (getController w r s) = Inr c"
  using assms
  by (auto simp: getController_def getPool_def createPool_def newController_def
      split: option.splits)

lemma run_layer_hands:
  assumes "\<forall>tr. createPool_throws w tr = None" and "\<forall>tr. constructor_throws w q tr = None"
    and "run_layer w l req s = (out, s')"
  shows "\<exists>es. trace s' = trace s @ es \<and> entered es = []
           \<and> length (controllers_used q es) = (if l = RouterMount q then 1 else 0)"
proof (cases "\<exists>r. l = RouterMount r")
  case True
  then obtain r where l: "l = RouterMount r" by blast
  with assms(3) have "routerMount w r req s = (out, s')" by simp
  from routerMount_hands [OF this] obtain es where es: "trace s' = trace s @ es"
    "entered es = []"
    "\<forall>q. controllers_used q es
            = (case fst (getController w r s) of
                 Inl m \<Rightarrow> [] | Inr c \<Rightarrow> if q = r then [ctrl_ref c] else [])"
    by blast
  show ?thesis
  proof (cases "r = q")
    case True
    with never_throws_constructs [OF assms(1,2), of s] obtain c where
      "fst (getController w r s) = Inr c" by blast
    with es l True show ?thesis by (intro exI [of _ es]) simp
  next
    case False
    with es l show ?thesis by (intro exI [of _ es]) (simp split: sum.splits)
  qed
next
  case False
  have "silent s s'"
    using assms(3) False
    by (cases l)
       (auto dest: cors_silent jsonParser_silent urlencodedParser_silent schemaInit_silent
          act_silent testDb_silent root_silent simp: silent_refl)
  with False show ?thesis by (auto simp: silent_def)
qed

lemma dispatch_hands:
  assumes "\<forall>tr. createPool_throws w tr = None" and "\<forall>tr. constructor_throws w q tr = None"
  shows "\<exists>es. trace (dispatch w ls pending req s) = trace s @ es
           \<and> length (controllers_used q es) = dispatches q es"
proof (induction ls arbitrary: pending s)
  case Nil
  from finalhandler_silent [of s pending] show ?case
    by (auto simp: silent_def dispatches_def)
next
  case (Cons l ls)
  let ?G = "\<exists>es. trace (dispatch w (l # ls) pending req s) = trace s @ es
           \<and> length (controllers_used q es) = dispatches q es"
  have step: "\<And>out s1 es1 k. trace s1 = trace s @ Enter l # es1 \<Longrightarrow> entered es1 = [] \<Longrightarrow>
       length (controllers_used q es1) = (if l = RouterMount q then 1 else 0) \<Longrightarrow>
       dispatch w (l # ls) pending req s
         = (case out of Next \<Rightarrow> dispatch w ls None req s1
            | NextErr e \<Rightarrow> dispatch w ls (Some e) req s1 | Ended \<Rightarrow> s1) \<Longrightarrow> ?G"
  proof -
    fix out s1 es1
    assume t: "trace s1 = trace s @ Enter l # es1" and q: "entered es1 = []"
      and n: "length (controllers_used q es1) = (if l = RouterMount q then 1 else 0)"
      and eq: "dispatch w (l # ls) pending req s
         = (case out of Next \<Rightarrow> dispatch w ls None req s1
            | NextErr e \<Rightarrow> dispatch w ls (Some e) req s1 | Ended \<Rightarrow> s1)"
    have here: "length (controllers_used q (Enter l # es1)) = dispatches q (Enter l # es1)"
      using q n by (simp add: dispatches_def)
    show ?G
    proof (cases out)
      case Ended
      with eq t here show ?G by (intro exI [of _ "Enter l # es1"]) simp
    next
      case Next
      from Cons.IH [of None s1] obtain es2 where
        "trace (dispatch w ls None req s1) = trace s1 @ es2"
        "length (controllers_used q es2) = dispatches q es2" by blast
      with eq Next t here show ?G
        by (intro exI [of _ "(Enter l # es1) @ es2"]) (simp add: dispatches_def)
    next
      case (NextErr e)
      from Cons.IH [of "Some e" s1] obtain es2 where
        "trace (dispatch w ls (Some e) req s1) = trace s1 @ es2"
        "length (controllers_used q es2) = dispatches q es2" by blast
      with eq NextErr t here show ?G
        by (intro exI [of _ "(Enter l # es1) @ es2"]) (simp add: dispatches_def)
    qed
  qed
  show ?case
  proof (cases "layer_matches l req \<and> (pending = None \<longleftrightarrow> \<not> is_error_handler l)")
    case False
    then have "dispatch w (l # ls) pending req s = dispatch w ls pending req s"
      by (cases pending) auto
    with Cons.IH [of pending s] show ?thesis by simp
  next
    case True
    show ?thesis
    proof (cases pending)
      case None
      obtain out s1 where r: "run_layer w l req (emit (Enter l) s) = (out, s1)"
        by (cases "run_layer w l req (emit (Enter l) s)")
      from run_layer_hands [OF assms r] obtain es1 where
        es1: "trace s1 = trace (emit (Enter l) s) @ es1" "entered es1 = []"
        "length (controllers_used q es1) = (if l = RouterMount q then 1 else 0)" by blast
      from es1(1) have t: "trace s1 = trace s @ Enter l # es1" by (simp add: emit_def)
      have "dispatch w (l # ls) pending req s
                = (case out of Next \<Rightarrow> dispatch w ls None req s1
                   | NextErr e \<Rightarrow> dispatch w ls (Some e) req s1 | Ended \<Rightarrow> s1)"
        using None True r by (simp split: outcome.splits)
      from step [OF t es1(2,3) this] show ?thesis .
    next
      case (Some e)
      with True have eh: "l = ErrorHandler" by (simp add: is_error_handler_def)
      obtain out s1 where r: "run_error_layer w e req (emit (Enter l) s) = (out, s1)"
        by (cases "run_error_layer w e req (emit (Enter l) s)")
      from run_error_layer_silent [OF r] obtain es1 where
        es1: "trace s1 = trace (emit (Enter l) s) @ es1" "entered es1 = []"
        "\<forall>q. controllers_used q es1 = []" by (auto simp: silent_def)
      from es1(1) have t: "trace s1 = trace s @ Enter l # es1" by (simp add: emit_def)
      have n: "length (controllers_used q es1) = (if l = RouterMount q then 1 else 0)"
        using es1(3) eh by simp
      have "dispatch w (l # ls) pending req s
                = (case out of Next \<Rightarrow> dispatch w ls None req s1
                   | NextErr e \<Rightarrow> dispatch w ls (Some e) req s1 | Ended \<Rightarrow> s1)"
        using Some True r by (simp split: outcome.splits)
      from step [OF t es1(2) n this] show ?thesis .
    qed
  qed
qed

lemma dispatches_append [simp]: "dispatches q (xs @ ys) = dispatches q xs + dispatches q ys"
  by (simp add: dispatches_def)

lemma serve_hands:
  assumes "\<forall>tr. createPool_throws w tr = None" and "\<forall>tr. constructor_throws w q tr = None"
  shows "\<exists>es. trace (serve w reqs s) = trace s @ es
           \<and> length (controllers_used q es) = dispatches q es"
proof (induction reqs arbitrary: s)
  case Nil
  show ?case by (simp add: dispatches_def)
next
  case (Cons req reqs)
  from dispatch_hands [OF assms, of app_stack None req s] obtain es1 where
    1: "trace (handle_request w req s) = trace s @ es1"
    "length (controllers_used q es1) = dispatches q es1" by (auto simp: handle_request_def)
  from Cons.IH [of "handle_request w req s"] obtain es2 where
    2: "trace (serve w reqs (handle_request w req s)) = trace (handle_request w req s) @ es2"
    "length (controllers_used q es2) = dispatches q es2" by blast
  from 1 2 show ?case by (intro exI [of _ "es1 @ es2"]) simp
qed

text \<open>
  Claim C4, as stated, fails: each factory is \<^verbatim>\<open>() => new XController(getPool())\<close> and each
  mount calls its factory inside the request wrapper, so every dispatch constructs a
  controller of its own. Two requests for \<^verbatim>\<open>/api/users/1\<close> hand two different controller
  instances to \<^verbatim>\<open>createUserRouter\<close>.
\<close>

theorem same_controller_not_reused:
  "\<not> (\<forall>c \<in> set (controllers_used User
                     (trace (serve calm [get ''/api/users/1'', get ''/api/users/1''] proc0))).
       \<forall>c' \<in> set (controllers_used User
                     (trace (serve calm [get ''/api/users/1'', get ''/api/users/1''] proc0))).
         c = c')"
  by code_simp

lemma routerMount_after_construction:
  assumes "getController w r s = (Inr c, s1)"
  shows "\<exists>es. trace (snd (routerMount w r req s)) = trace s1 @ es
           \<and> pool (snd (routerMount w r req s)) = pool s1"
proof -
  from getController_fresh [OF assms] obtain p where p: "pool s1 = Some p" by blast
  define vs where "vs = (if r = Auth then [] else [VerifyToken p])"
  define s3 where "s3 = emit (CreateRouter r (ctrl_ref c)) (emits vs s1)"
  have run: "routerMount w r req s = act (router_result w r req (trace s3)) s3"
    using assms p
    by (simp add: routerMount_def getPool_cached s3_def vs_def emits_def emit_def Let_def)
  have "\<exists>es. trace (snd (act (router_result w r req (trace s3)) s3)) = trace s3 @ es
          \<and> pool (snd (act (router_result w r req (trace s3)) s3)) = pool s3"
    by (cases "router_result w r req (trace s3)") (simp_all add: act_def emit_def)
  then obtain es3 where "trace (snd (routerMount w r req s)) = trace s3 @ es3"
    "pool (snd (routerMount w r req s)) = pool s3" unfolding run by blast
  then have "trace (snd (routerMount w r req s))
               = trace s1 @ (vs @ [CreateRouter r (ctrl_ref c)] @ es3)
             \<and> pool (snd (routerMount w r req s)) = pool s1"
    by (simp add: s3_def emit_def emits_def)
  then show ?thesis by (rule exI)
qed

text \<open>
  Claim C4, amended. A dispatch to the router of a resource calls the factory of its
  controller. When the factory returns (the pool could be obtained and the constructor
  did not throw), the controller it returns was constructed in that dispatch, at a
  reference not allocated before, bound to the pool the module variable holds after the
  dispatch, and it is the one controller handed to the router factory. When the factory
  throws, the wrapper passes the error to \<^verbatim>\<open>next\<close> and no controller is handed to any
  router factory. Over any sequence of requests served by a process, whatever the
  collaborators do: no two dispatches to the router of a resource use the same
  controller instance; every controller constructed is bound to the pool the module
  variable holds; and at most one pool is constructed. When neither \<^verbatim>\<open>createPool\<close> nor
  the constructor of the resource ever throws, the controllers handed to its router
  factory are as many as the dispatches to its router. What is constructed once and
  reused is the pool, not the controller.
\<close>

theorem controllers_fresh_pool_shared:
  "(\<forall>c s1. getController w r s = (Inr c, s1) \<longrightarrow>
       controllers_used r (since s (snd (routerMount w r req s))) = [ctrl_ref c]
       \<and> NewController r (ctrl_ref c) (ctrl_pool c) \<in> set (since s (snd (routerMount w r req s)))
       \<and> heap_next s \<le> ctrl_ref c
       \<and> pool (snd (routerMount w r req s)) = Some (ctrl_pool c))
   \<and> (\<forall>m s1. getController w r s = (Inl m, s1) \<longrightarrow>
       routerMount w r req s = (NextErr (Error None m), s1)
       \<and> controllers_used r (since s s1) = [])
   \<and> distinct (controllers_used r (trace (serve w reqs proc0)))
   \<and> (\<forall>p \<in> set (pools_bound (trace (serve w reqs proc0))). pool (serve w reqs proc0) = Some p)
   \<and> pools_constructed (serve w reqs proc0) \<le> 1
   \<and> ((\<forall>tr. createPool_throws w tr = None) \<and> (\<forall>tr. constructor_throws w r tr = None) \<longrightarrow>
        length (controllers_used r (trace (serve w reqs proc0)))
          = dispatches r (trace (serve w reqs proc0)))"
proof -
  have a: "\<forall>c s1. getController w r s = (Inr c, s1) \<longrightarrow>
       controllers_used r (since s (snd (routerMount w r req s))) = [ctrl_ref c]
       \<and> NewController r (ctrl_ref c) (ctrl_pool c) \<in> set (since s (snd (routerMount w r req s)))
       \<and> heap_next s \<le> ctrl_ref c
       \<and> pool (snd (routerMount w r req s)) = Some (ctrl_pool c)"
  proof (intro allI impI)
    fix c s1
    assume gc: "getController w r s = (Inr c, s1)"
    obtain out s' where rm: "routerMount w r req s = (out, s')"
      by (cases "routerMount w r req s")
    from routerMount_hands [OF rm] gc obtain es where es: "trace s' = trace s @ es"
      "controllers_used r es = [ctrl_ref c]" by auto
    from getController_constructs [OF gc] obtain es1 where es1: "trace s1 = trace s @ es1"
      "NewController r (ctrl_ref c) (ctrl_pool c) \<in> set es1" "heap_next s \<le> ctrl_ref c"
      "pool s1 = Some (ctrl_pool c)" by blast
    from routerMount_after_construction [OF gc, of req] rm obtain es2 where
      es2: "trace s' = trace s1 @ es2" "pool s' = pool s1" by auto
    from es1(1) es2(1) have "trace s' = trace s @ (es1 @ es2)" by simp
    then have "since s s' = es1 @ es2" by (rule since_append)
    moreover from es(1) have "since s s' = es" by (rule since_append)
    ultimately show "controllers_used r (since s (snd (routerMount w r req s))) = [ctrl_ref c]
       \<and> NewController r (ctrl_ref c) (ctrl_pool c) \<in> set (since s (snd (routerMount w r req s)))
       \<and> heap_next s \<le> ctrl_ref c
       \<and> pool (snd (routerMount w r req s)) = Some (ctrl_pool c)"
      using rm es es1 es2 by simp
  qed
  have b: "\<forall>m s1. getController w r s = (Inl m, s1) \<longrightarrow>
       routerMount w r req s = (NextErr (Error None m), s1)
       \<and> controllers_used r (since s s1) = []"
  proof (intro allI impI)
    fix m s1
    assume gc: "getController w r s = (Inl m, s1)"
    from getController_silent [OF gc] have "controllers_used r (since s s1) = []"
      by (auto simp: silent_def)
    with gc show "routerMount w r req s = (NextErr (Error None m), s1)
       \<and> controllers_used r (since s s1) = []"
      by (simp add: routerMount_def)
  qed
  from serve_grows [of proc0 w reqs] obtain es where g: "grows proc0 es (serve w reqs proc0)"
    by blast
  then have t: "trace (serve w reqs proc0) = es" by (simp add: grows_def proc0_def)
  with g have c: "distinct (controllers_used r (trace (serve w reqs proc0)))
   \<and> (\<forall>p \<in> set (pools_bound (trace (serve w reqs proc0))). pool (serve w reqs proc0) = Some p)
   \<and> pools_constructed (serve w reqs proc0) \<le> 1"
    by (auto simp: grows_def pools_constructed_created split: if_splits)
  have d: "(\<forall>tr. createPool_throws w tr = None) \<and> (\<forall>tr. constructor_throws w r tr = None) \<longrightarrow>
        length (controllers_used r (trace (serve w reqs proc0)))
          = dispatches r (trace (serve w reqs proc0))"
  proof
    assume "(\<forall>tr. createPool_throws w tr = None) \<and> (\<forall>tr. constructor_throws w r tr = None)"
    then have "\<exists>es. trace (serve w reqs proc0) = trace proc0 @ es
           \<and> length (controllers_used r es) = dispatches r es"
      by (intro serve_hands) simp_all
    then show "length (controllers_used r (trace (serve w reqs proc0)))
          = dispatches r (trace (serve w reqs proc0))"
      by (auto simp: proc0_def)
  qed
  from a b c d show ?thesis by blast
qed

theorem controllers_fresh_pool_shared_witness:
  "getController calm User proc0
     = (Inr \<lparr>ctrl_class = User, ctrl_ref = 1, ctrl_pool = 0\<rparr>, snd (getController calm User proc0))
   \<and> controllers_used User
        (since proc0 (snd (routerMount calm User (get ''/api/users/1'') proc0))) = [1]
   \<and> getController pool_down User proc0
       = (Inl ''ECONNREFUSED'', snd (getController pool_down User proc0))
   \<and> fst (routerMount pool_down User (get ''/api/users/1'') proc0)
       = NextErr (Error None ''ECONNREFUSED'')
   \<and> controllers_used User
     (trace (serve calm [get ''/api/users/1'', get ''/api/users/1''] proc0)) = [4, 8]
   \<and> dispatches User (trace (serve calm [get ''/api/users/1'', get ''/api/users/1''] proc0)) = 2
   \<and> pools_bound (trace (serve calm [get ''/api/users/1'', get ''/api/users/1''] proc0))
       = [0, 0, 0, 0, 0, 0, 0, 0]
   \<and> pool (serve calm [get ''/api/users/1'', get ''/api/users/1''] proc0) = Some 0
   \<and> pools_constructed (serve calm [get ''/api/users/1'', get ''/api/users/1''] proc0) = 1"
proof -
  have "controllers_used User
     (trace (serve calm [get ''/api/users/1'', get ''/api/users/1''] proc0)) = [4, 8]
   \<and> dispatches User (trace (serve calm [get ''/api/users/1'', get ''/api/users/1''] proc0)) = 2
   \<and> pools_bound (trace (serve calm [get ''/api/users/1'', get ''/api/users/1''] proc0))
       = [0, 0, 0, 0, 0, 0, 0, 0]
   \<and> pool (serve calm [get ''/api/users/1'', get ''/api/users/1''] proc0) = Some 0
   \<and> pools_constructed (serve calm [get ''/api/users/1'', get ''/api/users/1''] proc0) = 1"
    by code_simp
  note run = this
  have g1: "getController calm User proc0
     = (Inr \<lparr>ctrl_class = User, ctrl_ref = 1, ctrl_pool = 0\<rparr>, snd (getController calm User proc0))"
    and g2: "getController pool_down User proc0
       = (Inl ''ECONNREFUSED'', snd (getController pool_down User proc0))"
    by (simp_all add: getController_def getPool_def createPool_def newController_def
        calm_def pool_down_def proc0_def emit_def)
  note t1 = controllers_fresh_pool_shared [of calm User proc0 "get ''/api/users/1''"
        "[get ''/api/users/1'', get ''/api/users/1'']"]
  note t2 = controllers_fresh_pool_shared [of pool_down User proc0 "get ''/api/users/1''" "[]"]
  from t1 have "\<forall>c s1. getController calm User proc0 = (Inr c, s1) \<longrightarrow>
       controllers_used User
         (since proc0 (snd (routerMount calm User (get ''/api/users/1'') proc0))) = [ctrl_ref c]
       \<and> NewController User (ctrl_ref c) (ctrl_pool c)
           \<in> set (since proc0 (snd (routerMount calm User (get ''/api/users/1'') proc0)))
       \<and> heap_next proc0 \<le> ctrl_ref c
       \<and> pool (snd (routerMount calm User (get ''/api/users/1'') proc0)) = Some (ctrl_pool c)"
    by (rule conjunct1)
  then have "getController calm User proc0
      = (Inr \<lparr>ctrl_class = User, ctrl_ref = 1, ctrl_pool = 0\<rparr>, snd (getController calm User proc0))
     \<longrightarrow> controllers_used User
         (since proc0 (snd (routerMount calm User (get ''/api/users/1'') proc0)))
        = [ctrl_ref \<lparr>ctrl_class = User, ctrl_ref = 1, ctrl_pool = 0\<rparr>]
       \<and> NewController User (ctrl_ref \<lparr>ctrl_class = User, ctrl_ref = 1, ctrl_pool = 0\<rparr>)
            (ctrl_pool \<lparr>ctrl_class = User, ctrl_ref = 1, ctrl_pool = 0\<rparr>)
           \<in> set (since proc0 (snd (routerMount calm User (get ''/api/users/1'') proc0)))
       \<and> heap_next proc0 \<le> ctrl_ref \<lparr>ctrl_class = User, ctrl_ref = 1, ctrl_pool = 0\<rparr>
       \<and> pool (snd (routerMount calm User (get ''/api/users/1'') proc0))
          = Some (ctrl_pool \<lparr>ctrl_class = User, ctrl_ref = 1, ctrl_pool = 0\<rparr>)"
    by (elim allE)
  with g1 have a: "controllers_used User
         (since proc0 (snd (routerMount calm User (get ''/api/users/1'') proc0))) = [1]"
    by simp
  from t2 have "\<forall>m s1. getController pool_down User proc0 = (Inl m, s1) \<longrightarrow>
       routerMount pool_down User (get ''/api/users/1'') proc0 = (NextErr (Error None m), s1)
       \<and> controllers_used User (since proc0 s1) = []"
    by (elim conjE)
  then have "getController pool_down User proc0
       = (Inl ''ECONNREFUSED'', snd (getController pool_down User proc0)) \<longrightarrow>
       routerMount pool_down User (get ''/api/users/1'') proc0
         = (NextErr (Error None ''ECONNREFUSED''), snd (getController pool_down User proc0))
       \<and> controllers_used User (since proc0 (snd (getController pool_down User proc0))) = []"
    by (elim allE)
  with g2 have b: "fst (routerMount pool_down User (get ''/api/users/1'') proc0)
       = NextErr (Error None ''ECONNREFUSED'')"
    by simp
  from run g1 g2 a b show ?thesis by (intro conjI) simp_all
qed

section \<open>Registration order\<close>

lemma startsWith_comparable:
  assumes "startsWith q a" and "startsWith q b" and "length a \<le> length b"
  shows "take (length a) b = a"
proof -
  from assms(2) have "take (length a) b = take (length a) (take (length b) q)"
    by (simp add: startsWith_def)
  also have "\<dots> = take (length a) q" using assms(3) by (simp add: min_def)
  also have "\<dots> = a" using assms(1) by (simp add: startsWith_def)
  finally show ?thesis .
qed

lemma prefixes_incomparable:
  "r \<noteq> r' \<Longrightarrow> take (length (prefix_of r)) (prefix_of r') \<noteq> prefix_of r"
  by (cases r; cases r'; simp add: prefix_of_def)

lemma mount_exclusive:
  assumes "mountMatch (prefix_of r) p" and "mountMatch (prefix_of r') p"
  shows "r = r'"
proof (rule ccontr)
  assume ne: "r \<noteq> r'"
  from assms have a: "startsWith (map lower p) (prefix_of r)"
    and b: "startsWith (map lower p) (prefix_of r')"
    by (simp_all add: mountMatch_def)
  show False
  proof (cases "length (prefix_of r) \<le> length (prefix_of r')")
    case True
    from startsWith_comparable [OF a b True] prefixes_incomparable [OF ne] show False by simp
  next
    case False
    then have "length (prefix_of r') \<le> length (prefix_of r)" by simp
    from startsWith_comparable [OF b a this] prefixes_incomparable [of r' r] ne
    show False by simp
  qed
qed

lemma filter_mounts:
  "filter (\<lambda>l. layer_matches l req) (concat (map (\<lambda>r. [SanitizeInputs r, RouterMount r]) rs))
     = concat (map (\<lambda>r. if mountMatch (prefix_of r) (path req)
                          then [SanitizeInputs r, RouterMount r] else []) rs)"
  by (induction rs) simp_all

lemma none_matching:
  "\<forall>r \<in> set rs. \<not> P r \<Longrightarrow>
     concat (map (\<lambda>r. if P r then [SanitizeInputs r, RouterMount r] else []) rs) = []"
  by (induction rs) simp_all

lemma sorted_mounts:
  assumes "\<And>r r'. P r \<Longrightarrow> P r' \<Longrightarrow> r = r'" and "distinct rs"
  shows "sorted (map (rank \<circ> stage_of)
           (concat (map (\<lambda>r. if P r then [SanitizeInputs r, RouterMount r] else []) rs)))"
  using assms(2)
proof (induction rs)
  case Nil
  then show ?case by simp
next
  case (Cons r rs)
  show ?case
  proof (cases "P r")
    case True
    have "\<forall>r' \<in> set rs. \<not> P r'"
    proof
      fix r' assume "r' \<in> set rs"
      with Cons.prems have "r' \<noteq> r" by auto
      with assms(1) [OF True] show "\<not> P r'" by auto
    qed
    then have n: "concat (map (\<lambda>r. if P r then [SanitizeInputs r, RouterMount r] else []) rs) = []"
      by (rule none_matching)
    show ?thesis using True by (simp add: n)
  next
    case False
    with Cons show ?thesis by simp
  qed
qed

lemma ranks_mounts:
  "x \<in> set (map (rank \<circ> stage_of)
          (concat (map (\<lambda>r. if P r then [SanitizeInputs r, RouterMount r] else []) rs)))
     \<Longrightarrow> 5 \<le> x \<and> x \<le> 6"
  by (induction rs) (auto split: if_splits)

lemma sorted_four:
  fixes a :: "nat list"
  assumes "sorted a" "sorted m" "sorted t" "sorted b"
    and "\<forall>x \<in> set a. x \<le> 4" "\<forall>x \<in> set m. 5 \<le> x \<and> x \<le> 6" "\<forall>x \<in> set t. x = 6"
    and "\<forall>x \<in> set b. 7 \<le> x"
  shows "sorted (a @ m @ t @ b)"
  using assms by (fastforce simp: sorted_append)

lemma filter_app_stack:
  "filter (\<lambda>l. layer_matches l req) app_stack
     = [Helmet, Compression, Cors, BodyJson, BodyUrlencoded, AccessLog, SchemaInit]
       @ concat (map (\<lambda>r. if mountMatch (prefix_of r) (path req)
                          then [SanitizeInputs r, RouterMount r] else []) mounts)
       @ filter (\<lambda>l. layer_matches l req) [TestDbRoute, RootRoute]
       @ [NotFound, ErrorHandler]"
  by (simp add: app_stack_def filter_mounts)

lemma sorted_matching_stack:
  "sorted (map (rank \<circ> stage_of) (filter (\<lambda>l. layer_matches l req) app_stack))"
  unfolding filter_app_stack map_append
proof (rule sorted_four)
  show "sorted (map (rank \<circ> stage_of)
          (concat (map (\<lambda>r. if mountMatch (prefix_of r) (path req)
                          then [SanitizeInputs r, RouterMount r] else []) mounts)))"
    by (rule sorted_mounts) (auto dest: mount_exclusive simp: mounts_def)
  show "\<forall>x \<in> set (map (rank \<circ> stage_of)
          (concat (map (\<lambda>r. if mountMatch (prefix_of r) (path req)
                          then [SanitizeInputs r, RouterMount r] else []) mounts))).
          5 \<le> x \<and> x \<le> 6"
  proof
    fix x
    assume "x \<in> set (map (rank \<circ> stage_of)
          (concat (map (\<lambda>r. if mountMatch (prefix_of r) (path req)
                          then [SanitizeInputs r, RouterMount r] else []) mounts)))"
    then show "5 \<le> x \<and> x \<le> 6" by (rule ranks_mounts)
  qed
qed simp_all

lemma subseq_sorted: "subseq xs ys \<Longrightarrow> sorted (map f ys) \<Longrightarrow> sorted (map f xs)"
  by (induction rule: list_emb.induct) (auto dest: list_emb_set)

text \<open>
  Claim C6. For every request, every process state and every behaviour of the
  collaborators, the layers entered while the request is handled form a subsequence of
  the registration sequence, and their stages never go back in the order headers, CORS,
  body parsing, access logging, schema initialisation, sanitisation, handler, error
  normaliser: at most one mount matches a path, so its sanitiser and its router are the
  only ones entered, and \<^verbatim>\<open>notFound\<close> and \<^verbatim>\<open>errorHandler\<close> come after everything else. The
  registration sequence itself has the stages in that order.
\<close>

theorem middleware_runs_in_registration_order:
  "subseq (entered (since s (handle_request w req s))) app_stack
   \<and> sorted (map (rank \<circ> stage_of) (entered (since s (handle_request w req s))))
   \<and> map stage_of app_stack
       = [Headers, Headers, CorsPolicy, BodyParsing, BodyParsing, AccessLogging,
          SchemaInitialization]
         @ concat (replicate 11 [Sanitization, Handler])
         @ [Handler, Handler, ErrorNormalizer, ErrorNormalizer]"
proof -
  from dispatch_grows [of s w app_stack None req] obtain es where
    g: "grows s es (handle_request w req s)"
    and e: "subseq (entered es) (filter (\<lambda>l. layer_matches l req) app_stack)"
    by (auto simp: handle_request_def)
  from g have s: "since s (handle_request w req s) = es" by (rule grows_since)
  have "subseq (filter (\<lambda>l. layer_matches l req) app_stack) app_stack" by simp
  with e have 1: "subseq (entered es) app_stack" by (rule subseq_order.trans)
  from e sorted_matching_stack have 2: "sorted (map (rank \<circ> stage_of) (entered es))"
    by (rule subseq_sorted)
  have 3: "map stage_of app_stack
       = [Headers, Headers, CorsPolicy, BodyParsing, BodyParsing, AccessLogging,
          SchemaInitialization]
         @ concat (replicate 11 [Sanitization, Handler])
         @ [Handler, Handler, ErrorNormalizer, ErrorNormalizer]"
    by (simp add: app_stack_def mounts_def numeral_eq_Suc)
  from 1 2 3 s show ?thesis by simp
qed

theorem middleware_runs_in_registration_order_witness:
  "entered (since proc0 (handle_request calm (get ''/api/jobs/7'') proc0))
     = [Helmet, Compression, Cors, BodyJson, BodyUrlencoded, AccessLog, SchemaInit,
        SanitizeInputs Job, RouterMount Job]
   \<and> entered (since proc0 (handle_request calm (get ''/api/unknown'') proc0))
     = [Helmet, Compression, Cors, BodyJson, BodyUrlencoded, AccessLog, SchemaInit,
        NotFound, ErrorHandler]
   \<and> subseq [Helmet, Compression, Cors, BodyJson, BodyUrlencoded, AccessLog, SchemaInit,
        SanitizeInputs Job, RouterMount Job] app_stack
   \<and> sorted (map (rank \<circ> stage_of)
        [Helmet, Compression, Cors, BodyJson, BodyUrlencoded, AccessLog, SchemaInit,
         NotFound, ErrorHandler])"
proof -
  have "entered (since proc0 (handle_request calm (get ''/api/jobs/7'') proc0))
     = [Helmet, Compression, Cors, BodyJson, BodyUrlencoded, AccessLog, SchemaInit,
        SanitizeInputs Job, RouterMount Job]
   \<and> entered (since proc0 (handle_request calm (get ''/api/unknown'') proc0))
     = [Helmet, Compression, Cors, BodyJson, BodyUrlencoded, AccessLog, SchemaInit,
        NotFound, ErrorHandler]"
    by code_simp
  with middleware_runs_in_registration_order [of proc0 calm "get ''/api/jobs/7''"]
    middleware_runs_in_registration_order [of proc0 calm "get ''/api/unknown''"]
  show ?thesis by simp
qed

section \<open>Oversized payloads\<close>

lemma dispatch_next:
  assumes "layer_matches l req" and "\<not> is_error_handler l"
    and "run_layer w l req (emit (Enter l) s) = (Next, s')"
  shows "dispatch w (l # ls) None req s = dispatch w ls None req s'"
  using assms by simp

lemma dispatch_fail:
  assumes "layer_matches l req" and "\<not> is_error_handler l"
    and "run_layer w l req (emit (Enter l) s) = (NextErr e, s')"
  shows "dispatch w (l # ls) None req s = dispatch w ls (Some e) req s'"
  using assms by simp

lemma dispatch_ended:
  assumes "layer_matches l req" and "\<not> is_error_handler l"
    and "run_layer w l req (emit (Enter l) s) = (Ended, s')"
  shows "dispatch w (l # ls) None req s = s'"
  using assms by simp

lemma dispatch_error_skip:
  "\<forall>l \<in> set ls. \<not> is_error_handler l \<Longrightarrow>
     dispatch w (ls @ rest) (Some e) req s = dispatch w rest (Some e) req s"
  by (induction ls) simp_all

lemma dispatch_to_errorHandler:
  "\<exists>es. trace (dispatch w [ErrorHandler] (Some e) req s) = trace s @ Enter ErrorHandler # es
        \<and> entered es = []"
  by (auto simp: is_error_handler_def run_error_layer_def act_def finalhandler_def emit_def
      split: conduct.splits option.splits)

lemma app_stack_split:
  "app_stack = Helmet # Compression # Cors # BodyJson # BodyUrlencoded # tail_stack @ [ErrorHandler]"
  by (simp add: app_stack_def tail_stack_def)

lemma tail_stack_no_handler: "\<forall>l \<in> set tail_stack. \<not> is_error_handler l"
  by (auto simp: tail_stack_def is_error_handler_def)

lemma dispatch_rejected:
  assumes "\<forall>l \<in> set ls. \<not> is_error_handler l"
  shows "\<exists>es. trace (dispatch w (ls @ [ErrorHandler]) (Some e) req s)
                = trace s @ Enter ErrorHandler # es \<and> entered es = []"
  using dispatch_error_skip [OF assms, of w "[ErrorHandler]" e req s]
    dispatch_to_errorHandler [of w e req s]
  by (simp del: dispatch.simps)

lemmas dispatch_eval =
  handle_request_def app_stack_def mounts_def is_error_handler_def cors_def corsOptions_def
  production_def configureOrigin_def configureCredentials_def emits_def emit_def
  jsonParser_def urlencodedParser_def readBody_def announced_len_def stream_len_def
  tooLarge_def schemaInit_def selected_def startsWith_def ensure_def getController_def
  getPool_def createPool_def newController_def initTables_def act_def routerMount_def
  mountMatch_def routeMatch_def getMethod_def prefix_of_def lower_def limit_def
  run_error_layer_def calm_def post_def post_gzip_def proc0_def since_def Let_def

text \<open>
  Claim C9, as stated, fails: the two body parsers read only payloads announced as JSON
  or as URL-encoded form data, and no other layer reads a payload at all. A request
  for \<^verbatim>\<open>/api/jobs\<close> with a payload of two mebibytes and another content type passes both
  parsers unread, and the schema initialisation, the sanitiser and the router of jobs run.
\<close>

theorem oversized_payload_reaches_handler:
  "limit < body_len (post ''/api/jobs'' OtherContentType 2097152)
   \<and> limit < stream_len (post ''/api/jobs'' OtherContentType 2097152)
   \<and> entered (trace (handle_request calm (post ''/api/jobs'' OtherContentType 2097152) proc0))
       = [Helmet, Compression, Cors, BodyJson, BodyUrlencoded, AccessLog, SchemaInit,
          SanitizeInputs Job, RouterMount Job]"
  by (simp add: dispatch_eval)

lemma oversized_json:
  assumes "has_body req" and "content_type req = ApplicationJson" and "limit < stream_len req"
  shows "\<exists>e. (\<forall>s. jsonParser req s = (NextErr e, s))
           \<and> (status_of e = Some 413 \<or> status_of e = Some 415)
           \<and> (charset req = Utf8 \<and> content_encoding req \<noteq> OtherEncoding \<longrightarrow> e = tooLarge)"
  using assms
  by (cases "charset req"; cases "content_encoding req")
     (auto simp: jsonParser_def readBody_def announced_len_def stream_len_def tooLarge_def)

lemma oversized_urlencoded:
  assumes "has_body req" and "content_type req = FormUrlencoded" and "limit < stream_len req"
  shows "\<exists>e. (\<forall>s. urlencodedParser req s = (NextErr e, s))
           \<and> (status_of e = Some 413 \<or> status_of e = Some 415)
           \<and> (charset req = Utf8 \<and> content_encoding req \<noteq> OtherEncoding \<longrightarrow> e = tooLarge)"
  using assms
  by (cases "charset req"; cases "content_encoding req")
     (auto simp: urlencodedParser_def readBody_def announced_len_def stream_len_def
        tooLarge_def)

lemma other_types_pass:
  assumes "\<not> has_body req
           \<or> (content_type req \<noteq> ApplicationJson \<and> content_type req \<noteq> FormUrlencoded)"
  shows "jsonParser req s = (Next, s) \<and> urlencodedParser req s = (Next, s)"
  using assms by (auto simp: jsonParser_def urlencodedParser_def)

lemma handle_request_to_parsers:
  assumes "req_method req \<noteq> ''OPTIONS''"
  shows "handle_request w req s
       = dispatch w (BodyJson # BodyUrlencoded # tail_stack @ [ErrorHandler]) None req
           (emits (configureOrigin (corsOptions (process_env w)) req
                   @ configureCredentials (corsOptions (process_env w)))
              (emit (Enter Cors) (emit (Enter Compression) (emit (Enter Helmet) s))))"
proof -
  have "handle_request w req s
          = dispatch w (Compression # Cors # BodyJson # BodyUrlencoded # tail_stack @ [ErrorHandler])
              None req (emit (Enter Helmet) s)"
    unfolding handle_request_def app_stack_split
    by (rule dispatch_next) (simp_all add: is_error_handler_def)
  also have "\<dots> = dispatch w (Cors # BodyJson # BodyUrlencoded # tail_stack @ [ErrorHandler])
              None req (emit (Enter Compression) (emit (Enter Helmet) s))"
    by (rule dispatch_next) (simp_all add: is_error_handler_def)
  also have "\<dots> = dispatch w (BodyJson # BodyUrlencoded # tail_stack @ [ErrorHandler]) None req
           (emits (configureOrigin (corsOptions (process_env w)) req
                   @ configureCredentials (corsOptions (process_env w)))
              (emit (Enter Cors) (emit (Enter Compression) (emit (Enter Helmet) s))))"
    using assms by (intro dispatch_next) (simp_all add: is_error_handler_def cors_def)
  finally show ?thesis .
qed

lemma preflight_answered:
  assumes "req_method req = ''OPTIONS''"
  shows "entered (since s (handle_request w req s)) = [Helmet, Compression, Cors]"
proof -
  let ?opts = "corsOptions (process_env w)"
  let ?ps = "configureOrigin ?opts req @ configureCredentials ?opts
             @ configureMethods ?opts @ configureAllowedHeaders ?opts"
  let ?s3 = "emit (Enter Cors) (emit (Enter Compression) (emit (Enter Helmet) s))"
  have "handle_request w req s
          = dispatch w (Compression # Cors # BodyJson # BodyUrlencoded # tail_stack @ [ErrorHandler])
              None req (emit (Enter Helmet) s)"
    unfolding handle_request_def app_stack_split
    by (rule dispatch_next) (simp_all add: is_error_handler_def)
  also have "\<dots> = dispatch w (Cors # BodyJson # BodyUrlencoded # tail_stack @ [ErrorHandler])
              None req (emit (Enter Compression) (emit (Enter Helmet) s))"
    by (rule dispatch_next) (simp_all add: is_error_handler_def)
  also have "\<dots> = emit (Respond 204 []) (emits ?ps ?s3)"
    using assms by (intro dispatch_ended) (simp_all add: is_error_handler_def cors_def)
  finally show ?thesis by (simp add: since_def emit_def emits_def)
qed

text \<open>
  Claim C9, amended. Take a request that announces a body of content type JSON or
  URL-encoded form data which, after content decoding, is longer than the limit of
  1 MiB. The layers entered for it are the headers, CORS, the parsers up to the one of
  its content type and \<^verbatim>\<open>errorHandler\<close>, or the first three alone when the request is a
  preflight, which the CORS layer answers: neither the schema initialisation, nor a
  sanitiser, nor a router or route handler runs. The parser of its content type fails
  with an error of status 413 or 415, and of status 413 when the charset is
  \<^verbatim>\<open>utf-8\<close> and the content encoding is one the parser knows. A request that announces
  no body, or a body of another content type, passes both parsers whatever its length.
\<close>

theorem oversized_parsed_body_rejected:
  "(has_body req
      \<and> (content_type req = ApplicationJson \<or> content_type req = FormUrlencoded)
      \<and> limit < stream_len req \<longrightarrow>
        entered (since s (handle_request w req s))
           = (if req_method req = ''OPTIONS'' then [Helmet, Compression, Cors]
              else if content_type req = ApplicationJson
                then [Helmet, Compression, Cors, BodyJson, ErrorHandler]
              else [Helmet, Compression, Cors, BodyJson, BodyUrlencoded, ErrorHandler])
        \<and> (\<exists>e. (if content_type req = ApplicationJson then jsonParser req s
                  else urlencodedParser req s) = (NextErr e, s)
               \<and> (status_of e = Some 413 \<or> status_of e = Some 415)
               \<and> (charset req = Utf8 \<and> content_encoding req \<noteq> OtherEncoding \<longrightarrow>
                     e = tooLarge)))
   \<and> (\<not> has_body req
        \<or> (content_type req \<noteq> ApplicationJson \<and> content_type req \<noteq> FormUrlencoded) \<longrightarrow>
        jsonParser req s = (Next, s) \<and> urlencodedParser req s = (Next, s))"
proof (intro conjI impI)
  assume "\<not> has_body req
        \<or> (content_type req \<noteq> ApplicationJson \<and> content_type req \<noteq> FormUrlencoded)"
  then show "jsonParser req s = (Next, s)" and "urlencodedParser req s = (Next, s)"
    using other_types_pass by blast+
next
  assume h: "has_body req
      \<and> (content_type req = ApplicationJson \<or> content_type req = FormUrlencoded)
      \<and> limit < stream_len req"
  let ?P = "\<lambda>e. (status_of e = Some 413 \<or> status_of e = Some 415)
               \<and> (charset req = Utf8 \<and> content_encoding req \<noteq> OtherEncoding \<longrightarrow> e = tooLarge)"
  show "\<exists>e. (if content_type req = ApplicationJson then jsonParser req s
                  else urlencodedParser req s) = (NextErr e, s)
               \<and> (status_of e = Some 413 \<or> status_of e = Some 415)
               \<and> (charset req = Utf8 \<and> content_encoding req \<noteq> OtherEncoding \<longrightarrow>
                     e = tooLarge)"
  proof (cases "content_type req = ApplicationJson")
    case True
    with h oversized_json [of req] show ?thesis by auto
  next
    case False
    with h oversized_urlencoded [of req] show ?thesis by auto
  qed
  show "entered (since s (handle_request w req s))
           = (if req_method req = ''OPTIONS'' then [Helmet, Compression, Cors]
              else if content_type req = ApplicationJson
                then [Helmet, Compression, Cors, BodyJson, ErrorHandler]
              else [Helmet, Compression, Cors, BodyJson, BodyUrlencoded, ErrorHandler])"
  proof (cases "req_method req = ''OPTIONS''")
    case True
    then show ?thesis by (simp add: preflight_answered)
  next
    case False
    note opt = this
    let ?opts = "corsOptions (process_env w)"
    let ?hs = "configureOrigin ?opts req @ configureCredentials ?opts"
    let ?s3 = "emit (Enter Cors) (emit (Enter Compression) (emit (Enter Helmet) s))"
    let ?s4 = "emit (Enter BodyJson) (emits ?hs ?s3)"
    note h3 = handle_request_to_parsers [OF opt, of w s]
    show ?thesis
    proof (cases "content_type req = ApplicationJson")
      case True
      with h oversized_json [of req] obtain e where
        e: "\<forall>s. jsonParser req s = (NextErr e, s)" by blast
      have "handle_request w req s
              = dispatch w ((BodyUrlencoded # tail_stack) @ [ErrorHandler]) (Some e) req ?s4"
        unfolding h3 append_Cons using e
        by (intro dispatch_fail) (simp_all add: is_error_handler_def)
      moreover have "\<forall>l \<in> set (BodyUrlencoded # tail_stack). \<not> is_error_handler l"
        using tail_stack_no_handler by (simp add: is_error_handler_def)
      from dispatch_rejected [OF this, of w e req ?s4] obtain es where
        "trace (dispatch w ((BodyUrlencoded # tail_stack) @ [ErrorHandler]) (Some e) req ?s4)
           = trace ?s4 @ Enter ErrorHandler # es" "entered es = []" by blast
      ultimately have "entered (since s (handle_request w req s))
                   = [Helmet, Compression, Cors, BodyJson, ErrorHandler]"
        by (simp add: since_def emit_def emits_def del: dispatch.simps)
      with opt True show ?thesis by simp
    next
      case False
      with h have ty: "content_type req = FormUrlencoded" by simp
      with h oversized_urlencoded [of req] obtain e where
        e: "\<forall>s. urlencodedParser req s = (NextErr e, s)" by blast
      let ?s5 = "emit (Enter BodyUrlencoded) ?s4"
      have "handle_request w req s
              = dispatch w (BodyUrlencoded # tail_stack @ [ErrorHandler]) None req ?s4"
        unfolding h3 using ty
        by (intro dispatch_next) (simp_all add: is_error_handler_def jsonParser_def)
      also have "\<dots> = dispatch w (tail_stack @ [ErrorHandler]) (Some e) req ?s5"
        using e by (intro dispatch_fail) (simp_all add: is_error_handler_def)
      finally have h5: "handle_request w req s
              = dispatch w (tail_stack @ [ErrorHandler]) (Some e) req ?s5" .
      from dispatch_rejected [OF tail_stack_no_handler, of w e req ?s5] obtain es where
        "trace (dispatch w (tail_stack @ [ErrorHandler]) (Some e) req ?s5)
           = trace ?s5 @ Enter ErrorHandler # es" "entered es = []" by blast
      with h5 have "entered (since s (handle_request w req s))
                   = [Helmet, Compression, Cors, BodyJson, BodyUrlencoded, ErrorHandler]"
        by (simp add: since_def emit_def emits_def del: dispatch.simps)
      with opt ty show ?thesis by simp
    qed
  qed
qed

theorem oversized_parsed_body_rejected_witness:
  "has_body (post ''/api/jobs'' ApplicationJson 2097152)
   \<and> limit < stream_len (post ''/api/jobs'' ApplicationJson 2097152)
   \<and> entered (since proc0 (handle_request calm (post ''/api/jobs'' ApplicationJson 2097152) proc0))
       = [Helmet, Compression, Cors, BodyJson, ErrorHandler]
   \<and> jsonParser (post ''/api/jobs'' ApplicationJson 2097152) proc0 = (NextErr tooLarge, proc0)
   \<and> limit < stream_len (post_gzip ''/api/jobs'' FormUrlencoded 1000 2097152)
   \<and> entered (since proc0
        (handle_request calm (post_gzip ''/api/jobs'' FormUrlencoded 1000 2097152) proc0))
       = [Helmet, Compression, Cors, BodyJson, BodyUrlencoded, ErrorHandler]
   \<and> jsonParser (post ''/api/jobs'' OtherContentType 2097152) proc0 = (Next, proc0)
   \<and> urlencodedParser (post ''/api/jobs'' OtherContentType 2097152) proc0 = (Next, proc0)"
  using oversized_parsed_body_rejected [of "post ''/api/jobs'' ApplicationJson 2097152" proc0 calm]
    oversized_parsed_body_rejected
      [of "post_gzip ''/api/jobs'' FormUrlencoded 1000 2097152" proc0 calm]
    oversized_parsed_body_rejected [of "post ''/api/jobs'' OtherContentType 2097152" proc0 calm]
  by (simp add: post_def post_gzip_def limit_def stream_len_def jsonParser_def
      urlencodedParser_def readBody_def announced_len_def tooLarge_def)

section \<open>Which initialisers a request runs\<close>

lemma failures_append [simp]: "failures (xs @ ys) = failures xs @ failures ys"
  by (induction xs rule: failures.induct) simp_all

lemma init_results_none: "q \<notin> set (init_calls es) \<Longrightarrow> init_results q es = []"
  by (induction es rule: init_calls.induct) auto

lemma init_calls_results: "q \<in> set (init_calls es) \<longleftrightarrow> init_results q es \<noteq> []"
  by (induction es rule: init_calls.induct) auto

text \<open>A construction that fails ends with the failure; one that succeeds shows none.\<close>

lemma getController_failures:
  assumes "getController w r s = (g, s')"
  shows "\<exists>es. trace s' = trace s @ es \<and> init_calls es = []
           \<and> (case g of
                 Inr c \<Rightarrow> failures es = []
               | Inl m \<Rightarrow> es \<noteq> [] \<and> failures (butlast es) = [] \<and> failures [last es] = [m])"
  using assms
  by (auto simp: getController_def getPool_def createPool_def newController_def emit_def
      split: option.splits sum.splits prod.splits)

lemma ensure_failures:
  assumes "ensure w r s = (x, s')"
  shows "\<exists>es. trace s' = trace s @ es
           \<and> (case x of
                 None \<Rightarrow> failures es = []
               | Some m \<Rightarrow> es \<noteq> [] \<and> failures (butlast es) = [] \<and> failures [last es] = [m])"
proof -
  obtain g s1 where gc: "getController w r s = (g, s1)" by (cases "getController w r s")
  from getController_failures [OF gc] obtain es where es: "trace s1 = trace s @ es"
    and f: "case g of Inr c \<Rightarrow> failures es = []
               | Inl m \<Rightarrow> es \<noteq> [] \<and> failures (butlast es) = [] \<and> failures [last es] = [m]"
    by blast
  show ?thesis
  proof (cases g)
    case (Inl m)
    with assms gc have "x = Some m" "s' = s1" by (simp_all add: ensure_def)
    with es f Inl show ?thesis by auto
  next
    case (Inr c)
    with assms gc have "trace s' = trace s1 @ [InitTables (ctrl_class c) (ctrl_ref c) x]"
      by (auto simp: ensure_def initTables_def Let_def emit_def)
    with es have "trace s' = trace s @ (es @ [InitTables (ctrl_class c) (ctrl_ref c) x])"
      by simp
    moreover have "case x of
                 None \<Rightarrow> failures (es @ [InitTables (ctrl_class c) (ctrl_ref c) x]) = []
               | Some m \<Rightarrow> es @ [InitTables (ctrl_class c) (ctrl_ref c) x] \<noteq> []
                   \<and> failures (butlast (es @ [InitTables (ctrl_class c) (ctrl_ref c) x])) = []
                   \<and> failures [last (es @ [InitTables (ctrl_class c) (ctrl_ref c) x])] = [m]"
      using f Inr by (cases x) simp_all
    ultimately show ?thesis by blast
  qed
qed

lemma ensure_all_failures:
  "ensure_all w rs s = (x, s') \<Longrightarrow>
     \<exists>es. trace s' = trace s @ es
        \<and> (case x of
              None \<Rightarrow> failures es = []
            | Some m \<Rightarrow> es \<noteq> [] \<and> failures (butlast es) = [] \<and> failures [last es] = [m])"
proof (induction rs arbitrary: s)
  case Nil
  then show ?case by auto
next
  case (Cons r rs)
  obtain y s1 where e: "ensure w r s = (y, s1)" by (cases "ensure w r s")
  from ensure_failures [OF e] obtain es1 where es1: "trace s1 = trace s @ es1"
    and f1: "case y of None \<Rightarrow> failures es1 = []
               | Some m \<Rightarrow> es1 \<noteq> [] \<and> failures (butlast es1) = [] \<and> failures [last es1] = [m]"
    by blast
  show ?case
  proof (cases y)
    case (Some m)
    with Cons.prems e have "x = Some m" "s' = s1" by simp_all
    with es1 f1 Some show ?thesis by auto
  next
    case None
    with Cons.prems e have "ensure_all w rs s1 = (x, s')" by simp
    from Cons.IH [OF this] obtain es2 where es2: "trace s' = trace s1 @ es2"
      and f2: "case x of None \<Rightarrow> failures es2 = []
            | Some m \<Rightarrow> es2 \<noteq> [] \<and> failures (butlast es2) = [] \<and> failures [last es2] = [m]"
      by blast
    from es1 es2 have "trace s' = trace s @ (es1 @ es2)" by simp
    moreover have "case x of None \<Rightarrow> failures (es1 @ es2) = []
            | Some m \<Rightarrow> es1 @ es2 \<noteq> [] \<and> failures (butlast (es1 @ es2)) = []
                \<and> failures [last (es1 @ es2)] = [m]"
      using f1 f2 None by (cases x) (simp_all add: butlast_append)
    ultimately show ?thesis by blast
  qed
qed

lemma ensure_all_prefix:
  assumes "ensure_all w rs s = (x, s')"
  shows "\<exists>es. trace s' = trace s @ es \<and> prefix (init_calls es) rs"
proof (cases x)
  case None
  with ensure_all_ok [of w rs s s'] assms show ?thesis by auto
next
  case (Some m)
  with ensure_all_failed [of w rs s m s'] assms show ?thesis by auto
qed

lemma ensure_other:
  assumes "ensure w r s = (x, s')" and "r \<noteq> q"
  shows "\<exists>es. trace s' = trace s @ es \<and> init_results q es = []"
proof (cases x)
  case None
  with ensure_trace_ok [of w r s s'] assms show ?thesis by auto
next
  case (Some m)
  with ensure_trace_failed [of w r s m s'] assms obtain es where
    es: "trace s' = trace s @ es" "init_calls es = [] \<or> init_calls es = [r]" by blast
  with assms(2) have "q \<notin> set (init_calls es)" by auto
  with es(1) show ?thesis by (auto dest: init_results_none)
qed

text \<open>
  The initialiser of a resource in the block runs exactly once when the statements
  before its own succeed and its controller is constructed, and not at all otherwise.
\<close>

lemma ensure_all_runs:
  assumes "distinct rs" and "q \<in> set rs"
  shows "init_results q (since s (snd (ensure_all w rs s)))
           = (case ensure_all w (before q rs) s of
                (Some m, s1) \<Rightarrow> []
              | (None, s1) \<Rightarrow>
                  (case getController w q s1 of
                     (Inl m, s2) \<Rightarrow> []
                   | (Inr c, s2) \<Rightarrow> [initTables_rejects w q (trace s2)]))"
  using assms
proof (induction rs arbitrary: s)
  case Nil
  then show ?case by simp
next
  case (Cons r rs)
  show ?case
  proof (cases "r = q")
    case True
    have b: "before q (r # rs) = []" using True by (simp add: before_def)
    obtain g s2 where gc: "getController w q s = (g, s2)" by (cases "getController w q s")
    from getController_trace [OF gc] obtain es where es: "trace s2 = trace s @ es"
      "\<forall>q. init_results q es = []" by blast
    show ?thesis
    proof (cases g)
      case (Inl m)
      then have "ensure_all w (r # rs) s = (Some m, s2)"
        using True gc by (simp add: ensure_def)
      with es b gc Inl show ?thesis by simp
    next
      case (Inr c)
      let ?res = "initTables_rejects w q (trace s2)"
      let ?s3 = "emit (InitTables q (ctrl_ref c) ?res) s2"
      from gc Inr have cl: "ctrl_class c = q" by (simp add: getController_class)
      have e: "ensure w r s = (?res, ?s3)"
        using True gc Inr cl by (simp add: ensure_def initTables_def Let_def)
      have t3: "trace ?s3 = trace s @ es @ [InitTables q (ctrl_ref c) ?res]"
        using es by (simp add: emit_def)
      show ?thesis
      proof (cases ?res)
        case (Some m)
        with e have "ensure_all w (r # rs) s = (Some m, ?s3)" by simp
        with t3 es b gc Inr Some show ?thesis by simp
      next
        case None
        with e have ea: "ensure_all w (r # rs) s = ensure_all w rs ?s3" by simp
        obtain x s' where r: "ensure_all w rs ?s3 = (x, s')" by (cases "ensure_all w rs ?s3")
        from ensure_all_prefix [OF r] obtain es' where es': "trace s' = trace ?s3 @ es'"
          "prefix (init_calls es') rs" by blast
        from Cons.prems True have "q \<notin> set rs" by simp
        with es'(2) have "q \<notin> set (init_calls es')" using set_mono_prefix by blast
        then have n: "init_results q es' = []" by (rule init_results_none)
        from es'(1) t3 have "trace s' = trace s @ (es @ [InitTables q (ctrl_ref c) ?res] @ es')"
          by simp
        then have "since s s' = es @ [InitTables q (ctrl_ref c) ?res] @ es'" by (rule since_append)
        with ea r n es b gc Inr None show ?thesis by simp
      qed
    qed
  next
    case False
    then have b: "before q (r # rs) = r # before q rs" by (simp add: before_def)
    from Cons.prems False have d: "distinct rs" "q \<in> set rs" by auto
    obtain x s1 where e: "ensure w r s = (x, s1)" by (cases "ensure w r s")
    from ensure_other [OF e False] obtain es1 where es1: "trace s1 = trace s @ es1"
      "init_results q es1 = []" by blast
    show ?thesis
    proof (cases x)
      case (Some m)
      with e have "ensure_all w (r # rs) s = (Some m, s1)"
        "ensure_all w (r # before q rs) s = (Some m, s1)" by simp_all
      with es1 b show ?thesis by simp
    next
      case None
      with e have 1: "ensure_all w (r # rs) s = ensure_all w rs s1"
        and 2: "ensure_all w (r # before q rs) s = ensure_all w (before q rs) s1" by simp_all
      obtain y s' where r: "ensure_all w rs s1 = (y, s')" by (cases "ensure_all w rs s1")
      from ensure_all_prefix [OF r] obtain es' where es': "trace s' = trace s1 @ es'" by blast
      with es1 have "trace s' = trace s @ (es1 @ es')" by simp
      then have "since s s' = es1 @ es'" by (rule since_append)
      moreover from es' have "since s1 s' = es'" by (rule since_append)
      ultimately show ?thesis
        using Cons.IH [OF d, of s1] 1 2 r b es1 by simp
    qed
  qed
qed

text \<open>What the middleware adds to what its block added: the line on the console, if any.\<close>

lemma schemaInit_since:
  assumes "startsWith (path req) ''/api/''"
  shows "\<exists>es. trace (snd (ensure_all w (selected (path req)) s)) = trace s @ es
           \<and> since s (snd (schemaInit w req s))
               = es @ (case fst (ensure_all w (selected (path req)) s) of
                         None \<Rightarrow> []
                       | Some m \<Rightarrow> [ConsoleError [''Failed to initialize tables:'', m]])"
proof -
  obtain x s1 where e: "ensure_all w (selected (path req)) s = (x, s1)"
    by (cases "ensure_all w (selected (path req)) s")
  from ensure_all_prefix [OF e] obtain es where es: "trace s1 = trace s @ es" by blast
  with assms e show ?thesis
    by (cases x) (simp_all add: schemaInit_def emit_def since_def)
qed

lemma selected_iff:
  "q \<in> set (selected p) \<longleftrightarrow>
        q = Office \<or> q = Team \<or> q = Auth
        \<or> q = Organization \<and> startsWith p ''/api/organizations''
        \<or> q = HiringManager \<and> startsWith p ''/api/hiring-managers''
        \<or> q = Job \<and> startsWith p ''/api/jobs''
        \<or> q = JobSeeker \<and> startsWith p ''/api/job-seekers''
        \<or> q = CustomField \<and> startsWith p ''/api/custom-fields''
        \<or> q = Lead \<and> startsWith p ''/api/leads''
        \<or> q = Task \<and> startsWith p ''/api/tasks''"
  by (auto simp: selected_def)

lemma runs_iff:
  "(case ensure_all w rs s of
      (Some m, s1) \<Rightarrow> []
    | (None, s1) \<Rightarrow>
        (case getController w q s1 of
           (Inl m, s2) \<Rightarrow> []
         | (Inr c, s2) \<Rightarrow> [f s2])) \<noteq> []
   \<longleftrightarrow> fst (ensure_all w rs s) = None \<and> constructs w q (snd (ensure_all w rs s))"
  by (auto simp: constructs_def split: prod.splits option.splits sum.splits)

text \<open>
  Claim C5, as stated, fails: the initialisers are statements of one \<^verbatim>\<open>try\<close> block, so
  the first that fails leaves the block and the later ones are not run. With the office
  initialiser rejecting, a request for \<^verbatim>\<open>/api/jobs/7\<close> runs the office initialiser only:
  neither the rest of the baseline set nor the initialiser of jobs.
\<close>

theorem baseline_not_always_run:
  "startsWith (path (get ''/api/jobs/7'')) ''/api/''
   \<and> init_calls (trace (snd (schemaInit office_down (get ''/api/jobs/7'') proc0))) = [Office]
   \<and> Team \<notin> set (init_calls (trace (snd (schemaInit office_down (get ''/api/jobs/7'') proc0))))
   \<and> Job \<notin> set (init_calls (trace (snd (schemaInit office_down (get ''/api/jobs/7'') proc0))))"
  by (simp add: schemaInit_eval)

text \<open>
  Claim C5, amended. A request whose path does not start with \<^verbatim>\<open>/api/\<close> runs no
  initialiser and changes nothing. For a request whose path does:
  \<^item> the initialisers run are an initial segment of the selected list: office, team,
    auth, then the initialiser of each resource whose prefix the path starts with, in
    the order of the source;
  \<^item> when nothing fails they are the whole list;
  \<^item> when something fails, a pool or a controller that cannot be constructed or an
    initialiser that rejects, it is the only failure, it is the last thing done before
    the line on the console, and nothing runs after it.

  So the initialiser of a resource runs exactly when the path starts with \<^verbatim>\<open>/api/\<close>, the
  resource is one of the three of the baseline or the path starts with its prefix, no
  statement before its own fails, and its controller can be constructed.
\<close>

theorem schemaInit_selects_by_prefix:
  "(\<not> startsWith (path req) ''/api/'' \<longrightarrow> schemaInit w req s = (Next, s))
   \<and> (startsWith (path req) ''/api/'' \<longrightarrow>
        prefix (init_calls (since s (snd (schemaInit w req s)))) (selected (path req))
        \<and> (failures (since s (snd (schemaInit w req s))) = [] \<longrightarrow>
             init_calls (since s (snd (schemaInit w req s))) = selected (path req))
        \<and> (\<forall>m. m \<in> set (failures (since s (snd (schemaInit w req s)))) \<longrightarrow>
             failures (since s (snd (schemaInit w req s))) = [m]
             \<and> failures [last (butlast (since s (snd (schemaInit w req s))))] = [m]
             \<and> last (since s (snd (schemaInit w req s)))
                 = ConsoleError [''Failed to initialize tables:'', m]))
   \<and> (q \<in> set (init_calls (since s (snd (schemaInit w req s)))) \<longleftrightarrow>
        startsWith (path req) ''/api/''
        \<and> (q = Office \<or> q = Team \<or> q = Auth
           \<or> q = Organization \<and> startsWith (path req) ''/api/organizations''
           \<or> q = HiringManager \<and> startsWith (path req) ''/api/hiring-managers''
           \<or> q = Job \<and> startsWith (path req) ''/api/jobs''
           \<or> q = JobSeeker \<and> startsWith (path req) ''/api/job-seekers''
           \<or> q = CustomField \<and> startsWith (path req) ''/api/custom-fields''
           \<or> q = Lead \<and> startsWith (path req) ''/api/leads''
           \<or> q = Task \<and> startsWith (path req) ''/api/tasks'')
        \<and> fst (ensure_all w (before q (selected (path req))) s) = None
        \<and> constructs w q (snd (ensure_all w (before q (selected (path req))) s)))"
proof -
  let ?new = "since s (snd (schemaInit w req s))"
  let ?log = "\<lambda>m. ConsoleError [''Failed to initialize tables:'', m]"
  obtain x s1 where e: "ensure_all w (selected (path req)) s = (x, s1)"
    by (cases "ensure_all w (selected (path req)) s")
  from ensure_all_failures [OF e] obtain es where es: "trace s1 = trace s @ es"
    and f: "case x of None \<Rightarrow> failures es = []
            | Some m \<Rightarrow> es \<noteq> [] \<and> failures (butlast es) = [] \<and> failures [last es] = [m]"
    by blast
  from ensure_all_prefix [OF e] es(1) have p: "prefix (init_calls es) (selected (path req))"
    by auto
  have new: "startsWith (path req) ''/api/'' \<Longrightarrow>
               ?new = es @ (case x of None \<Rightarrow> [] | Some m \<Rightarrow> [?log m])"
    using e es by (cases x) (simp_all add: schemaInit_def emit_def since_def)
  have calls: "startsWith (path req) ''/api/'' \<Longrightarrow> init_calls ?new = init_calls es"
    and results: "startsWith (path req) ''/api/'' \<Longrightarrow> init_results q ?new = init_results q es"
    by (cases x; simp add: new)+
  have 1: "\<not> startsWith (path req) ''/api/'' \<longrightarrow> schemaInit w req s = (Next, s)"
    by (simp add: schemaInit_def)
  have 2: "startsWith (path req) ''/api/'' \<longrightarrow>
        prefix (init_calls ?new) (selected (path req))
        \<and> (failures ?new = [] \<longrightarrow> init_calls ?new = selected (path req))
        \<and> (\<forall>m. m \<in> set (failures ?new) \<longrightarrow>
             failures ?new = [m] \<and> failures [last (butlast ?new)] = [m]
             \<and> last ?new = ?log m)"
  proof
    assume api: "startsWith (path req) ''/api/''"
    show "prefix (init_calls ?new) (selected (path req))
        \<and> (failures ?new = [] \<longrightarrow> init_calls ?new = selected (path req))
        \<and> (\<forall>m. m \<in> set (failures ?new) \<longrightarrow>
             failures ?new = [m] \<and> failures [last (butlast ?new)] = [m]
             \<and> last ?new = ?log m)"
    proof (cases x)
      case None
      from ensure_all_ok [OF e [unfolded None]] es(1) have "init_calls es = selected (path req)"
        by auto
      with None f p show ?thesis by (simp add: new [OF api])
    next
      case (Some m)
      with f have ne: "es \<noteq> []" and b: "failures (butlast es) = []"
        and l: "failures [last es] = [m]" by simp_all
      from ne have "es = butlast es @ [last es]" by simp
      then have "failures es = failures (butlast es) @ failures [last es]"
        by (metis failures_append)
      with b l have fe: "failures es = [m]" by simp
      from Some have n: "?new = es @ [?log m]" by (simp add: new [OF api])
      show ?thesis unfolding n using p fe l by (simp add: butlast_append)
    qed
  qed
  have 3: "q \<in> set (init_calls ?new) \<longleftrightarrow>
        startsWith (path req) ''/api/''
        \<and> q \<in> set (selected (path req))
        \<and> fst (ensure_all w (before q (selected (path req))) s) = None
        \<and> constructs w q (snd (ensure_all w (before q (selected (path req))) s))"
  proof (cases "startsWith (path req) ''/api/''")
    case False
    then show ?thesis by (simp add: schemaInit_def)
  next
    case True
    show ?thesis
    proof (cases "q \<in> set (selected (path req))")
      case False
      with p have "q \<notin> set (init_calls es)" using set_mono_prefix by blast
      with False True show ?thesis by (simp add: calls)
    next
      case sel: True
      from es(1) e have "since s (snd (ensure_all w (selected (path req)) s)) = es" by simp
      with ensure_all_runs [OF distinct_selected sel, of s w]
      have "init_results q es \<noteq> [] \<longleftrightarrow>
              fst (ensure_all w (before q (selected (path req))) s) = None
              \<and> constructs w q (snd (ensure_all w (before q (selected (path req))) s))"
        by (simp add: runs_iff)
      with True sel show ?thesis by (simp add: init_calls_results results)
    qed
  qed
  from 1 2 3 show ?thesis unfolding selected_iff by blast
qed

lemmas schemaInit_eval2 = schemaInit_eval team_down_def before_def constructs_def confirmed_def

theorem schemaInit_selects_by_prefix_witness:
  "startsWith (path (get ''/api/jobs/7'')) ''/api/''
   \<and> failures (since proc0 (snd (schemaInit office_down (get ''/api/jobs/7'') proc0)))
       = [''relation offices: permission denied'']
   \<and> init_calls (since proc0 (snd (schemaInit office_down (get ''/api/jobs/7'') proc0)))
       = [Office]
   \<and> fst (ensure_all office_down (before Team (selected (path (get ''/api/jobs/7'')))) proc0)
       = Some ''relation offices: permission denied''
   \<and> failures (since proc0 (snd (schemaInit calm (get ''/api/jobs/7'') proc0))) = []
   \<and> init_calls (since proc0 (snd (schemaInit calm (get ''/api/jobs/7'') proc0)))
       = [Office, Team, Auth, Job]
   \<and> \<not> startsWith (path (get ''/test-db'')) ''/api/''
   \<and> schemaInit calm (get ''/test-db'') proc0 = (Next, proc0)"
  using schemaInit_selects_by_prefix [of "get ''/api/jobs/7''" office_down proc0 Team]
    schemaInit_selects_by_prefix [of "get ''/api/jobs/7''" calm proc0 Job]
    schemaInit_selects_by_prefix [of "get ''/test-db''" calm proc0 Job]
  by (simp add: schemaInit_eval2)

section \<open>Initialisers run on every request\<close>

text \<open>
  Claim C3, as stated, fails: the process keeps no record of which resources have been
  initialised, and the middleware does not look at the past. After one request for
  \<^verbatim>\<open>/api/auth/login\<close> in a world where nothing fails, the office schema is confirmed;
  the next request for the same path calls \<^verbatim>\<open>initTables\<close> of office, team and auth
  again.
\<close>

theorem initialiser_runs_again:
  "confirmed Office (trace (handle_request calm (get ''/api/auth/login'') proc0))
   \<and> init_calls (since (handle_request calm (get ''/api/auth/login'') proc0)
        (handle_request calm (get ''/api/auth/login'')
           (handle_request calm (get ''/api/auth/login'') proc0)))
       = [Office, Team, Auth]"
  by code_simp

text \<open>
  Claim C3, amended. Whatever has happened before, and so also when the resource is
  confirmed already: a request under \<^verbatim>\<open>/api/\<close> that selects a resource calls that
  resource's \<^verbatim>\<open>initTables\<close> once more, provided the statements of the block before its
  own succeed and its controller is constructed. How that call ends, and what the
  statements after it do, makes no difference. What a repeated call costs is the
  initialiser's own business.
\<close>

theorem schemaInit_runs_every_time:
  assumes "startsWith (path req) ''/api/''"
    and "q \<in> set (selected (path req))"
    and "ensure_all w (before q (selected (path req))) s = (None, s1)"
    and "getController w q s1 = (Inr c, s2)"
  shows "init_results q (trace (snd (schemaInit w req s)))
           = init_results q (trace s) @ [initTables_rejects w q (trace s2)]"
proof -
  from schemaInit_since [OF assms(1), of w s] obtain es where
    es: "trace (snd (ensure_all w (selected (path req)) s)) = trace s @ es"
    and new: "since s (snd (schemaInit w req s))
               = es @ (case fst (ensure_all w (selected (path req)) s) of
                         None \<Rightarrow> []
                       | Some m \<Rightarrow> [ConsoleError [''Failed to initialize tables:'', m]])"
    by blast
  from es have "since s (snd (ensure_all w (selected (path req)) s)) = es" by simp
  with ensure_all_runs [OF distinct_selected assms(2), of s w] assms(3,4)
  have r: "init_results q es = [initTables_rejects w q (trace s2)]" by simp
  have "trace (snd (schemaInit w req s)) = trace s @ since s (snd (schemaInit w req s))"
    using assms(1) es
    by (cases "ensure_all w (selected (path req)) s"; cases "fst (ensure_all w (selected (path req)) s)")
       (simp_all add: schemaInit_def emit_def since_def)
  then have "init_results q (trace (snd (schemaInit w req s)))
               = init_results q (trace s) @ init_results q (since s (snd (schemaInit w req s)))"
    by (metis init_results_append)
  with new r show ?thesis
    by (cases "fst (ensure_all w (selected (path req)) s)") simp_all
qed

theorem schemaInit_runs_every_time_witness:
  "confirmed Office (trace (snd (schemaInit team_down (get ''/api/auth/login'') proc0)))
   \<and> startsWith (path (get ''/api/auth/login'')) ''/api/''
   \<and> Office \<in> set (selected (path (get ''/api/auth/login'')))
   \<and> ensure_all team_down (before Office (selected (path (get ''/api/auth/login''))))
        (snd (schemaInit team_down (get ''/api/auth/login'') proc0))
       = (None, snd (schemaInit team_down (get ''/api/auth/login'') proc0))
   \<and> fst (getController team_down Office
             (snd (schemaInit team_down (get ''/api/auth/login'') proc0)))
       = Inr \<lparr>ctrl_class = Office, ctrl_ref = 3, ctrl_pool = 0\<rparr>
   \<and> fst (ensure_all team_down (selected (path (get ''/api/auth/login'')))
            (snd (schemaInit team_down (get ''/api/auth/login'') proc0)))
       = Some ''relation teams: permission denied''
   \<and> init_results Office
       (trace (snd (schemaInit team_down (get ''/api/auth/login'')
                 (snd (schemaInit team_down (get ''/api/auth/login'') proc0)))))
       = [None, None]"
proof -
  let ?s = "snd (schemaInit team_down (get ''/api/auth/login'') proc0)"
  have "getController team_down Office ?s
          = (Inr \<lparr>ctrl_class = Office, ctrl_ref = 3, ctrl_pool = 0\<rparr>,
             snd (getController team_down Office ?s))"
    by (simp add: schemaInit_eval2)
  then show ?thesis
    using schemaInit_runs_every_time [of "get ''/api/auth/login''" Office team_down ?s ?s
        "\<lparr>ctrl_class = Office, ctrl_ref = 3, ctrl_pool = 0\<rparr>"
        "snd (getController team_down Office ?s)"]
    by (simp add: schemaInit_eval2)
qed

end
